theory Spec2Isabelle
  imports Main "HOL-Library.Sublist"
begin

section \<open>PSt\_CV.py: session files to tables of potential and current\<close>

text \<open>
  The development follows \<^verbatim>\<open>parse_pessession_file\<close> and the table writer inside
  \<^verbatim>\<open>convert_pessession_to_text\<close>. A Python \<^verbatim>\<open>str\<close> is a sequence of Unicode code
  points, so a character is a code point (a natural number); ASCII literals of the
  source are written through \<open>str\<close>.
\<close>

subsection \<open>Python values\<close>

type_synonym pychar = nat
type_synonym pystr = "pychar list"

definition str :: "string \<Rightarrow> pystr" where
  "str s = map of_char s"

definition LBRACE :: pychar where "LBRACE = 123"
definition RBRACE :: pychar where "RBRACE = 125"
definition BOM :: pychar where "BOM = 65279"
definition TAB :: pychar where "TAB = 9"
definition NEWLINE :: pychar where "NEWLINE = 10"

text \<open>
  What \<^verbatim>\<open>json.loads\<close> returns: \<^verbatim>\<open>None\<close>, a bool, a number, a \<^verbatim>\<open>str\<close>, a list, or a
  dict. A dict is kept as its items in insertion order (the order in which Python
  iterates it); \<^verbatim>\<open>json.loads\<close> never yields two items with one key. The number type
  is a parameter: the program never computes with a number, it only stores and
  prints it.
\<close>

datatype 'n json =
    JNull
  | JBool bool
  | JNum 'n
  | JStr pystr
  | JArr "'n json list"
  | JObj "(pystr \<times> 'n json) list"

text \<open>The exceptions the program can meet; all of them are subclasses of \<^verbatim>\<open>Exception\<close>.\<close>

datatype exn =
    KeyError | TypeError | IndexError | ValueError | JSONDecodeError | ReadError
  | UnicodeEncodeError

text \<open>\<^verbatim>\<open>key in x\<close> for a \<^verbatim>\<open>str\<close> key: dict membership, list membership by equality,
  substring test on a \<^verbatim>\<open>str\<close>; any other operand is not iterable.\<close>

fun py_in :: "pystr \<Rightarrow> 'n json \<Rightarrow> exn + bool" where
  "py_in key (JObj items) = Inr (key \<in> set (map fst items))"
| "py_in key (JArr xs) = Inr (JStr key \<in> set xs)"
| "py_in key (JStr s) = Inr (sublist key s)"
| "py_in key JNull = Inl TypeError"
| "py_in key (JBool b) = Inl TypeError"
| "py_in key (JNum n) = Inl TypeError"

text \<open>\<^verbatim>\<open>x[key]\<close> for a \<^verbatim>\<open>str\<close> key: only a dict accepts it.\<close>

fun py_getitem :: "'n json \<Rightarrow> pystr \<Rightarrow> exn + 'n json" where
  "py_getitem (JObj items) key =
     (case map_of items key of None \<Rightarrow> Inl KeyError | Some v \<Rightarrow> Inr v)"
| "py_getitem (JArr xs) key = Inl TypeError"
| "py_getitem (JStr s) key = Inl TypeError"
| "py_getitem JNull key = Inl TypeError"
| "py_getitem (JBool b) key = Inl TypeError"
| "py_getitem (JNum n) key = Inl TypeError"

text \<open>\<^verbatim>\<open>len(x)\<close>.\<close>

fun py_len :: "'n json \<Rightarrow> exn + nat" where
  "py_len (JObj items) = Inr (length items)"
| "py_len (JArr xs) = Inr (length xs)"
| "py_len (JStr s) = Inr (length s)"
| "py_len JNull = Inl TypeError"
| "py_len (JBool b) = Inl TypeError"
| "py_len (JNum n) = Inl TypeError"

text \<open>The elements a \<^verbatim>\<open>for\<close> loop visits: the elements of a list, the keys of a dict,
  the one-character strings of a \<^verbatim>\<open>str\<close>.\<close>

fun py_iter :: "'n json \<Rightarrow> exn + 'n json list" where
  "py_iter (JArr xs) = Inr xs"
| "py_iter (JObj items) = Inr (map (\<lambda>kv. JStr (fst kv)) items)"
| "py_iter (JStr s) = Inr (map (\<lambda>c. JStr [c]) s)"
| "py_iter JNull = Inl TypeError"
| "py_iter (JBool b) = Inl TypeError"
| "py_iter (JNum n) = Inl TypeError"

subsection \<open>Locating the payload (lines 19 to 40)\<close>

text \<open>\<^verbatim>\<open>content.find(c)\<close> for a single character; \<open>None\<close> stands for \<open>-1\<close>.\<close>

fun find_char :: "pychar \<Rightarrow> pystr \<Rightarrow> nat option" where
  "find_char c [] = None"
| "find_char c (x # xs) = (if x = c then Some 0 else map_option Suc (find_char c xs))"

text \<open>The \<^verbatim>\<open>while\<close> loop of lines 28 to 33, returning the final
  \<^verbatim>\<open>(brace_count, end_idx)\<close>.\<close>

function brace_scan :: "pystr \<Rightarrow> int \<Rightarrow> nat \<Rightarrow> int \<times> nat" where
  "brace_scan content brace_count end_idx =
     (if brace_count > 0 \<and> end_idx < length content
      then brace_scan content
             (if content ! end_idx = LBRACE then brace_count + 1
              else if content ! end_idx = RBRACE then brace_count - 1
              else brace_count)
             (end_idx + 1)
      else (brace_count, end_idx))"
  by pat_completeness auto
termination
  by (relation "measure (\<lambda>(content, brace_count, end_idx). length content - end_idx)") auto

declare brace_scan.simps [simp del]

text \<open>\<^verbatim>\<open>content[a:b]\<close> for \<open>0 \<le> a\<close> and \<open>0 \<le> b\<close>.\<close>

definition slice :: "'a list \<Rightarrow> nat \<Rightarrow> nat \<Rightarrow> 'a list" where
  "slice xs a b = take (b - a) (drop a xs)"

text \<open>The three ways in which \<^verbatim>\<open>parse_pessession_file\<close> gives up and returns the
  empty list: the return of line 22, the return of line 37, and the handler of
  lines 83 to 85 with the exception it caught.\<close>

datatype stop = NoJsonFound | IncompleteJson | Raised exn

definition candidate_span :: "pystr \<Rightarrow> stop + pystr" where
  "candidate_span content =
     (case find_char LBRACE content of
        None \<Rightarrow> Inl NoJsonFound
      | Some start_idx \<Rightarrow>
          (case brace_scan content 1 (start_idx + 1) of
             (brace_count, end_idx) \<Rightarrow>
               if brace_count > 0 then Inl IncompleteJson
               else Inr (slice content start_idx end_idx)))"

text \<open>Lines 15 and 16.\<close>

definition strip_bom :: "pystr \<Rightarrow> pystr" where
  "strip_bom content = (case content of [] \<Rightarrow> [] | c # cs \<Rightarrow> if c = BOM then cs else content)"

text \<open>The nesting counter of the specification: every opening brace counts \<open>+1\<close>,
  every closing brace \<open>-1\<close>, every other character nothing.\<close>

fun depth :: "pystr \<Rightarrow> int" where
  "depth [] = 0"
| "depth (c # cs) =
     (if c = LBRACE then 1 else if c = RBRACE then - 1 else 0) + depth cs"

text \<open>A span that starts with an opening brace and whose counter is positive after
  every proper non-empty prefix and zero at its end.\<close>

definition closes_first :: "pystr \<Rightarrow> bool" where
  "closes_first s \<longleftrightarrow>
     s \<noteq> [] \<and> hd s = LBRACE \<and> depth s = 0 \<and>
     list_all (\<lambda>k. 0 < depth (take k s)) [1..<length s]"

text \<open>The counter stays positive to the end of the text.\<close>

definition never_closes :: "pystr \<Rightarrow> bool" where
  "never_closes s \<longleftrightarrow> list_all (\<lambda>k. 0 < depth (take k s)) [1..<length s + 1]"

subsection \<open>Walking the document (lines 43 to 81)\<close>

definition k_Measurements :: pystr where "k_Measurements = str ''Measurements''"
definition k_Curves :: pystr where "k_Curves = str ''Curves''"
definition k_XAxisDataArray :: pystr where "k_XAxisDataArray = str ''XAxisDataArray''"
definition k_YAxisDataArray :: pystr where "k_YAxisDataArray = str ''YAxisDataArray''"
definition k_DataValues :: pystr where "k_DataValues = str ''DataValues''"
definition k_V :: pystr where "k_V = str ''V''"

text \<open>One entry of \<^verbatim>\<open>all_scans\<close>.\<close>

record 'n scan =
  scan_number :: nat
  potential :: "'n json list"
  current :: "'n json list"

text \<open>The comprehension \<^verbatim>\<open>[point[key] for point in points]\<close>: the first failing
  lookup raises.\<close>

fun getitem_each :: "'n json list \<Rightarrow> pystr \<Rightarrow> exn + 'n json list" where
  "getitem_each [] key = Inr []"
| "getitem_each (point # points) key =
     (case py_getitem point key of
        Inl e \<Rightarrow> Inl e
      | Inr v \<Rightarrow>
          (case getitem_each points key of
             Inl e \<Rightarrow> Inl e
           | Inr vs \<Rightarrow> Inr (v # vs)))"

text \<open>Lines 53 and 57 to 58 (and 54 and 62 to 63 for the other axis): the series
  starts empty and is replaced when \<^verbatim>\<open>axis in curve and 'DataValues' in curve[axis]\<close>
  holds. The source evaluates \<^verbatim>\<open>curve[axis]\<close> twice, with one result.\<close>

definition axis_values :: "pystr \<Rightarrow> 'n json \<Rightarrow> exn + 'n json list" where
  "axis_values axis curve =
     (case py_in axis curve of
        Inl e \<Rightarrow> Inl e
      | Inr has_axis \<Rightarrow>
          if \<not> has_axis then Inr []
          else
            (case py_getitem curve axis of
               Inl e \<Rightarrow> Inl e
             | Inr arr \<Rightarrow>
                 (case py_in k_DataValues arr of
                    Inl e \<Rightarrow> Inl e
                  | Inr has_values \<Rightarrow>
                      if \<not> has_values then Inr []
                      else
                        (case py_getitem arr k_DataValues of
                           Inl e \<Rightarrow> Inl e
                         | Inr values \<Rightarrow>
                             (case py_iter values of
                                Inl e \<Rightarrow> Inl e
                              | Inr points \<Rightarrow> getitem_each points k_V)))))"

text \<open>The body of the inner loop, lines 52 to 74, on the state \<^verbatim>\<open>all_scans\<close>.\<close>

definition curve_body :: "'n scan list \<Rightarrow> nat \<Rightarrow> 'n json \<Rightarrow> exn + 'n scan list" where
  "curve_body all_scans curve_idx curve =
     (case axis_values k_XAxisDataArray curve of
        Inl e \<Rightarrow> Inl e
      | Inr pot \<Rightarrow>
          (case axis_values k_YAxisDataArray curve of
             Inl e \<Rightarrow> Inl e
           | Inr cur \<Rightarrow>
               if length pot > 0 \<and> length cur > 0 then
                 if length pot \<noteq> length cur then Inr all_scans
                 else Inr (all_scans @
                        [\<lparr>scan_number = curve_idx + 1, potential = pot, current = cur\<rparr>])
               else Inr all_scans))"

text \<open>\<^verbatim>\<open>for curve_idx, curve in enumerate(...)\<close>, from the index reached.\<close>

fun curves_loop :: "'n scan list \<Rightarrow> nat \<Rightarrow> 'n json list \<Rightarrow> exn + 'n scan list" where
  "curves_loop all_scans curve_idx [] = Inr all_scans"
| "curves_loop all_scans curve_idx (curve # rest) =
     (case curve_body all_scans curve_idx curve of
        Inl e \<Rightarrow> Inl e
      | Inr all_scans' \<Rightarrow> curves_loop all_scans' (curve_idx + 1) rest)"

text \<open>The body of the outer loop, lines 46 to 76.\<close>

definition measurement_body :: "'n scan list \<Rightarrow> 'n json \<Rightarrow> exn + 'n scan list" where
  "measurement_body all_scans measurement =
     (case py_in k_Curves measurement of
        Inl e \<Rightarrow> Inl e
      | Inr has_curves \<Rightarrow>
          if has_curves then
            (case py_getitem measurement k_Curves of
               Inl e \<Rightarrow> Inl e
             | Inr curves \<Rightarrow>
                 (case py_iter curves of
                    Inl e \<Rightarrow> Inl e
                  | Inr cs \<Rightarrow> curves_loop all_scans 0 cs))
          else Inr all_scans)"

fun measurements_loop :: "'n scan list \<Rightarrow> 'n json list \<Rightarrow> exn + 'n scan list" where
  "measurements_loop all_scans [] = Inr all_scans"
| "measurements_loop all_scans (measurement # rest) =
     (case measurement_body all_scans measurement of
        Inl e \<Rightarrow> Inl e
      | Inr all_scans' \<Rightarrow> measurements_loop all_scans' rest)"

text \<open>Lines 43 to 81 on the parsed document.\<close>

definition assemble :: "'n json \<Rightarrow> exn + 'n scan list" where
  "assemble data =
     (case py_in k_Measurements data of
        Inl e \<Rightarrow> Inl e
      | Inr has_measurements \<Rightarrow>
          if has_measurements then
            (case py_getitem data k_Measurements of
               Inl e \<Rightarrow> Inl e
             | Inr ms \<Rightarrow>
                 (case py_len ms of
                    Inl e \<Rightarrow> Inl e
                  | Inr n \<Rightarrow>
                      if n > 0 then
                        (case py_iter ms of
                           Inl e \<Rightarrow> Inl e
                         | Inr measurements \<Rightarrow> measurements_loop [] measurements)
                      else Inr []))
          else Inr [])"

subsection \<open>The whole of \<^verbatim>\<open>parse_pessession_file\<close>\<close>

text \<open>
  Reading and decoding the file is the environment's: \<open>file_read\<close> is what
  \<^verbatim>\<open>open\<close> and \<^verbatim>\<open>file.read()\<close> gave, the decoded text or the exception. The JSON parser
  is the library's and is the parameter \<open>loads\<close>.
\<close>

definition extract_json :: "(pystr \<Rightarrow> exn + 'n json) \<Rightarrow> pystr \<Rightarrow> stop + 'n json" where
  "extract_json loads content =
     (case candidate_span content of
        Inl s \<Rightarrow> Inl s
      | Inr json_content \<Rightarrow>
          (case loads json_content of
             Inl e \<Rightarrow> Inl (Raised e)
           | Inr data \<Rightarrow> Inr data))"

definition parse_steps ::
  "(pystr \<Rightarrow> exn + 'n json) \<Rightarrow> exn + pystr \<Rightarrow> stop + 'n scan list" where
  "parse_steps loads file_read =
     (case file_read of
        Inl e \<Rightarrow> Inl (Raised e)
      | Inr content \<Rightarrow>
          (case extract_json loads (strip_bom content) of
             Inl s \<Rightarrow> Inl s
           | Inr data \<Rightarrow>
               (case assemble data of
                  Inl e \<Rightarrow> Inl (Raised e)
                | Inr all_scans \<Rightarrow> Inr all_scans)))"

definition parse_pessession_file ::
  "(pystr \<Rightarrow> exn + 'n json) \<Rightarrow> exn + pystr \<Rightarrow> 'n scan list" where
  "parse_pessession_file loads file_read =
     (case parse_steps loads file_read of
        Inl s \<Rightarrow> []
      | Inr all_scans \<Rightarrow> all_scans)"

subsection \<open>Writing the table (lines 119 to 154)\<close>

text \<open>\<^verbatim>\<open>str(n)\<close> for a non-negative integer.\<close>

function decimal :: "nat \<Rightarrow> pystr" where
  "decimal n = (if n < 10 then [48 + n] else decimal (n div 10) @ [48 + n mod 10])"
  by pat_completeness auto
termination
  by (relation "measure id") auto

declare decimal.simps [simp del]

definition header1 :: "nat \<Rightarrow> pystr" where
  "header1 n =
     concat (map (\<lambda>scan_num. str ''Scan '' @ decimal (scan_num + 1) @ [TAB, TAB, TAB, TAB])
                 [0..<n])"

definition header2 :: "nat \<Rightarrow> pystr" where
  "header2 n =
     concat (replicate n (str ''Potential(V)'' @ [TAB] @ str ''Current(A)'' @ [TAB, TAB]))"

text \<open>\<^verbatim>\<open>max(len(scan['potential']) for scan in all_scans)\<close>; \<^verbatim>\<open>max\<close> of nothing raises.\<close>

definition max_points_of :: "'n scan list \<Rightarrow> exn + nat" where
  "max_points_of all_scans =
     (if all_scans = [] then Inl ValueError
      else Inr (Max (set (map (\<lambda>scan. length (potential scan)) all_scans))))"

text \<open>The inner loop of lines 149 to 153 on the state \<^verbatim>\<open>line\<close>. How a value prints in
  an f-string is the parameter \<open>fmt\<close>. Reading \<^verbatim>\<open>scan['current'][i]\<close> past the end
  raises.\<close>

fun line_loop ::
  "('n json \<Rightarrow> pystr) \<Rightarrow> nat \<Rightarrow> pystr \<Rightarrow> 'n scan list \<Rightarrow> exn + pystr" where
  "line_loop fmt i line [] = Inr line"
| "line_loop fmt i line (scan # rest) =
     (if i < length (potential scan) then
        if i < length (current scan) then
          line_loop fmt i
            (line @ fmt (potential scan ! i) @ [TAB] @ fmt (current scan ! i) @ [TAB, TAB])
            rest
        else Inl IndexError
      else line_loop fmt i (line @ [TAB, TAB, TAB]) rest)"

text \<open>\<^verbatim>\<open>output_file.write(s)\<close> on the text file opened at line 130. The string is
  encoded on the call, with the encoding of the locale, since \<^verbatim>\<open>open\<close> is given none;
  when that encoding cannot encode the string the call raises and nothing of the string
  is written. Which strings the encoding can encode is the parameter \<open>encodes\<close>. The
  output file is the list of the strings written so far, one per call.\<close>

definition file_write :: "(pystr \<Rightarrow> bool) \<Rightarrow> pystr list \<Rightarrow> pystr \<Rightarrow> exn + pystr list" where
  "file_write encodes output_file s =
     (if encodes s then Inr (output_file @ [s]) else Inl UnicodeEncodeError)"

text \<open>The loop of lines 147 to 154; an exception leaves what was written.\<close>

fun rows_loop ::
  "(pystr \<Rightarrow> bool) \<Rightarrow> ('n json \<Rightarrow> pystr) \<Rightarrow> 'n scan list \<Rightarrow> pystr list \<Rightarrow> nat list
     \<Rightarrow> pystr list \<times> exn option"
  where
  "rows_loop encodes fmt all_scans output_file [] = (output_file, None)"
| "rows_loop encodes fmt all_scans output_file (i # is) =
     (case line_loop fmt i [] all_scans of
        Inl e \<Rightarrow> (output_file, Some e)
      | Inr line \<Rightarrow>
          (case file_write encodes output_file (line @ [NEWLINE]) of
             Inl e \<Rightarrow> (output_file, Some e)
           | Inr output_file' \<Rightarrow> rows_loop encodes fmt all_scans output_file' is))"

text \<open>Lines 130 to 154: the two header lines, the maximum, the data rows.\<close>

definition write_table ::
  "(pystr \<Rightarrow> bool) \<Rightarrow> ('n json \<Rightarrow> pystr) \<Rightarrow> 'n scan list \<Rightarrow> pystr list \<times> exn option" where
  "write_table encodes fmt all_scans =
     (case file_write encodes [] (header1 (length all_scans) @ [NEWLINE]) of
        Inl e \<Rightarrow> ([], Some e)
      | Inr output_file1 \<Rightarrow>
          (case file_write encodes output_file1 (header2 (length all_scans) @ [NEWLINE]) of
             Inl e \<Rightarrow> (output_file1, Some e)
           | Inr output_file2 \<Rightarrow>
               (case max_points_of all_scans of
                  Inl e \<Rightarrow> (output_file2, Some e)
                | Inr max_points \<Rightarrow>
                    rows_loop encodes fmt all_scans output_file2 [0..<max_points])))"

text \<open>The body of the loop over the files, lines 119 to 156: \<open>None\<close> when the file is
  skipped and no output file is opened, otherwise the output file and the exception
  that ended the writing, if any.\<close>

definition convert_file ::
  "(pystr \<Rightarrow> exn + 'n json) \<Rightarrow> (pystr \<Rightarrow> bool) \<Rightarrow> ('n json \<Rightarrow> pystr) \<Rightarrow> exn + pystr
     \<Rightarrow> (pystr list \<times> exn option) option" where
  "convert_file loads encodes fmt file_read =
     (let all_scans = parse_pessession_file loads file_read
      in if all_scans = [] then None else Some (write_table encodes fmt all_scans))"

subsection \<open>The specification's reading of a document\<close>

text \<open>
  The data model of the specification: a session is an object whose \<open>Measurements\<close>,
  when present, is a sequence of measurements; a measurement is an object whose
  \<open>Curves\<close>, when present, is a sequence of curves; a curve is an object whose two axis
  containers, when present, are objects whose \<open>DataValues\<close>, when present, is a
  sequence of data points; a data point is an object with a value under \<open>V\<close>.
\<close>

definition point_shaped :: "'n json \<Rightarrow> bool" where
  "point_shaped p =
     (case p of JObj items \<Rightarrow> k_V \<in> set (map fst items) | _ \<Rightarrow> False)"

definition axis_shaped :: "'n json \<Rightarrow> bool" where
  "axis_shaped a =
     (case a of
        JObj items \<Rightarrow>
          (case map_of items k_DataValues of
             None \<Rightarrow> True
           | Some (JArr points) \<Rightarrow> list_all point_shaped points
           | Some _ \<Rightarrow> False)
      | _ \<Rightarrow> False)"

definition curve_shaped :: "'n json \<Rightarrow> bool" where
  "curve_shaped c =
     (case c of
        JObj items \<Rightarrow>
          (case map_of items k_XAxisDataArray of None \<Rightarrow> True | Some a \<Rightarrow> axis_shaped a) \<and>
          (case map_of items k_YAxisDataArray of None \<Rightarrow> True | Some a \<Rightarrow> axis_shaped a)
      | _ \<Rightarrow> False)"

definition measurement_shaped :: "'n json \<Rightarrow> bool" where
  "measurement_shaped m =
     (case m of
        JObj items \<Rightarrow>
          (case map_of items k_Curves of
             None \<Rightarrow> True
           | Some (JArr curves) \<Rightarrow> list_all curve_shaped curves
           | Some _ \<Rightarrow> False)
      | _ \<Rightarrow> False)"

definition session_shaped :: "'n json \<Rightarrow> bool" where
  "session_shaped d =
     (case d of
        JObj items \<Rightarrow>
          (case map_of items k_Measurements of
             None \<Rightarrow> True
           | Some (JArr measurements) \<Rightarrow> list_all measurement_shaped measurements
           | Some _ \<Rightarrow> False)
      | _ \<Rightarrow> False)"

text \<open>The sequences the specification reads off a document: the measurements of a
  session, the curves of a measurement, and for a curve the ordered \<open>V\<close> values of
  \<open>axis.DataValues\<close> if that path exists, else the empty sequence.\<close>

definition measurements_of :: "'n json \<Rightarrow> 'n json list" where
  "measurements_of d =
     (case d of
        JObj items \<Rightarrow>
          (case map_of items k_Measurements of Some (JArr ms) \<Rightarrow> ms | _ \<Rightarrow> [])
      | _ \<Rightarrow> [])"

definition curves_of :: "'n json \<Rightarrow> 'n json list" where
  "curves_of m =
     (case m of
        JObj items \<Rightarrow>
          (case map_of items k_Curves of Some (JArr cs) \<Rightarrow> cs | _ \<Rightarrow> [])
      | _ \<Rightarrow> [])"

definition V_of :: "'n json \<Rightarrow> 'n json option" where
  "V_of p = (case p of JObj items \<Rightarrow> map_of items k_V | _ \<Rightarrow> None)"

definition V_series :: "pystr \<Rightarrow> 'n json \<Rightarrow> 'n json list" where
  "V_series axis c =
     (case c of
        JObj items \<Rightarrow>
          (case map_of items axis of
             Some (JObj a) \<Rightarrow>
               (case map_of a k_DataValues of
                  Some (JArr points) \<Rightarrow> List.map_filter V_of points
                | _ \<Rightarrow> [])
           | _ \<Rightarrow> [])
      | _ \<Rightarrow> [])"

text \<open>The assembler of the specification: a curve survives when both of its series
  are non-empty and of one length; a surviving curve at 0-based position \<open>i\<close> of its
  measurement gives the one record numbered \<open>i + 1\<close>, any other curve gives none; a
  measurement gives the records of its curves in order, a session those of its
  measurements in order.\<close>

definition survives :: "'n json \<Rightarrow> bool" where
  "survives c \<longleftrightarrow>
     V_series k_XAxisDataArray c \<noteq> [] \<and> V_series k_YAxisDataArray c \<noteq> [] \<and>
     length (V_series k_XAxisDataArray c) = length (V_series k_YAxisDataArray c)"

definition curve_records :: "nat \<Rightarrow> 'n json \<Rightarrow> 'n scan list" where
  "curve_records i c =
     (if survives c
      then [\<lparr>scan_number = i + 1,
             potential = V_series k_XAxisDataArray c,
             current = V_series k_YAxisDataArray c\<rparr>]
      else [])"

definition measurement_records :: "'n json \<Rightarrow> 'n scan list" where
  "measurement_records m =
     concat (map (\<lambda>(i, c). curve_records i c) (enumerate 0 (curves_of m)))"

definition session_records :: "'n json \<Rightarrow> 'n scan list" where
  "session_records d = concat (map measurement_records (measurements_of d))"

text \<open>The record invariant of the specification: the two series of a scan have one
  length.\<close>

definition scan_ok :: "'n scan \<Rightarrow> bool" where
  "scan_ok r \<longleftrightarrow> length (potential r) = length (current r)"

text \<open>The cell group of the specification for record \<open>scan\<close> in data row \<open>i\<close>.\<close>

definition cell_group :: "('n json \<Rightarrow> pystr) \<Rightarrow> nat \<Rightarrow> 'n scan \<Rightarrow> pystr" where
  "cell_group fmt i scan =
     (if i < length (potential scan)
      then fmt (potential scan ! i) @ [TAB] @ fmt (current scan ! i) @ [TAB, TAB]
      else [TAB, TAB, TAB])"

text \<open>The table of the specification: the two header lines, then one row for every
  index below the greatest number of potential points, each row holding the cell
  groups of the records in order.\<close>

definition table_lines :: "('n json \<Rightarrow> pystr) \<Rightarrow> 'n scan list \<Rightarrow> pystr list" where
  "table_lines fmt all_scans =
     [header1 (length all_scans) @ [NEWLINE], header2 (length all_scans) @ [NEWLINE]] @
     map (\<lambda>i. concat (map (cell_group fmt i) all_scans) @ [NEWLINE])
         [0..<Max (set (map (\<lambda>scan. length (potential scan)) all_scans))]"

text \<open>Text of ASCII characters only; and what the UTF-8 encoding can encode: every
  code point but the surrogates \<^verbatim>\<open>U+D800\<close> to \<^verbatim>\<open>U+DFFF\<close>.\<close>

definition ascii_text :: "pystr \<Rightarrow> bool" where
  "ascii_text s = list_all (\<lambda>c. c < 128) s"

definition utf8_encodes :: "pystr \<Rightarrow> bool" where
  "utf8_encodes s = list_all (\<lambda>c. \<not> (55296 \<le> c \<and> c \<le> 57343)) s"

subsection \<open>Example documents\<close>

text \<open>Documents in the format of the instrument, with integers for the numbers.\<close>

definition ex_point :: "int \<Rightarrow> int json" where
  "ex_point v = JObj [(k_V, JNum v)]"

definition ex_axis :: "int list \<Rightarrow> int json" where
  "ex_axis vs = JObj [(k_DataValues, JArr (map ex_point vs))]"

definition ex_curve :: "int list \<Rightarrow> int list \<Rightarrow> int json" where
  "ex_curve xs ys = JObj [(k_XAxisDataArray, ex_axis xs), (k_YAxisDataArray, ex_axis ys)]"

definition ex_measurement :: "int json list \<Rightarrow> int json" where
  "ex_measurement cs = JObj [(k_Curves, JArr cs)]"

definition ex_session :: "int json list \<Rightarrow> int json" where
  "ex_session ms = JObj [(k_Measurements, JArr ms)]"

definition ex_doc :: "int json" where
  "ex_doc = ex_session
     [ex_measurement [ex_curve [0, 1, 2] [5, 6], ex_curve [0, 5] [7, 8]],
      ex_measurement [ex_curve [1] [2]]]"


definition ex_bad_curve :: "int json" where
  "ex_bad_curve = JObj [(k_XAxisDataArray, JObj [(k_DataValues, JArr [JObj []])])]"

definition ex_no_sequence :: "int json" where
  "ex_no_sequence = JObj [(k_Measurements, JNum 5)]"

definition ex_bad :: "int json" where
  "ex_bad = ex_session [ex_measurement [ex_curve [1, 2] [3, 4], ex_bad_curve]]"

text \<open>How an f-string prints an integer, a string, \<^verbatim>\<open>None\<close> and a bool; lists and
  dicts, which no example holds, are abbreviated.\<close>

definition ex_fmt :: "int json \<Rightarrow> pystr" where
  "ex_fmt v =
     (case v of
        JNum n \<Rightarrow> (if n < 0 then 45 # decimal (nat (- n)) else decimal (nat n))
      | JStr s \<Rightarrow> s
      | JNull \<Rightarrow> str ''None''
      | JBool b \<Rightarrow> (if b then str ''True'' else str ''False'')
      | JArr xs \<Rightarrow> str ''[...]''
      | JObj items \<Rightarrow> str ''{...}'')"

definition ex_scans :: "int scan list" where
  "ex_scans =
     [\<lparr>scan_number = 1, potential = map JNum [1, 2, 3], current = map JNum [4, 5, 6]\<rparr>,
      \<lparr>scan_number = 2, potential = map JNum [1, 2, 3, 4, 5],
        current = map JNum [6, 7, 8, 9, 10]\<rparr>]"

text \<open>A record whose second potential value is the string of the lone surrogate
  \<^verbatim>\<open>U+D800\<close>, as \<^verbatim>\<open>json.loads\<close> gives for \<^verbatim>\<open>"\ud800"\<close>.\<close>

definition ex_surrogate :: "int scan list" where
  "ex_surrogate =
     [\<lparr>scan_number = 1, potential = [JNum 1, JStr [55296], JNum 3],
        current = [JNum 4, JNum 5, JNum 6]\<rparr>]"


definition ex_loads :: "int json \<Rightarrow> pystr \<Rightarrow> exn + int json" where
  "ex_loads d t = Inr d"

section \<open>Properties\<close>

subsection \<open>The payload extractor\<close>

lemma closes_first_iff:
  "closes_first s \<longleftrightarrow>
     s \<noteq> [] \<and> hd s = LBRACE \<and> depth s = 0 \<and>
     (\<forall>k \<in> {1..<length s}. 0 < depth (take k s))"
  unfolding closes_first_def list_all_iff set_upt ..

lemma never_closes_iff:
  "never_closes s \<longleftrightarrow> (\<forall>k \<in> {1..<length s + 1}. 0 < depth (take k s))"
  unfolding never_closes_def list_all_iff set_upt ..

lemma depth_append: "depth (xs @ ys) = depth xs + depth ys"
  by (induction xs) auto

lemma slice_self: "slice xs e e = []"
  by (simp add: slice_def)

lemma slice_step:
  assumes "e < length xs" "e < k"
  shows "slice xs e k = xs ! e # slice xs (Suc e) k"
proof -
  from assms(2) obtain d where d: "k - e = Suc d" "k - Suc e = d"
    by (cases "k - e") auto
  have "drop e xs = xs ! e # drop (Suc e) xs"
    using assms(1) by (simp add: Cons_nth_drop_Suc)
  then show ?thesis
    unfolding slice_def d by simp
qed

lemma brace_scan_stop:
  "\<not> (0 < bc \<and> e < length content) \<Longrightarrow> brace_scan content bc e = (bc, e)"
  by (subst brace_scan.simps) auto

lemma brace_scan_go:
  "0 < bc \<Longrightarrow> e < length content \<Longrightarrow>
   brace_scan content bc e =
     brace_scan content (if content ! e = LBRACE then bc + 1
              else if content ! e = RBRACE then bc - 1 else bc) (e + 1)"
  by (subst brace_scan.simps) simp

lemma brace_scan_props:
  "brace_scan content bc e = (bc', e') \<Longrightarrow> 0 \<le> bc \<Longrightarrow> e \<le> length content \<Longrightarrow>
     e \<le> e' \<and> e' \<le> length content \<and> 0 \<le> bc' \<and>
     bc' = bc + depth (slice content e e') \<and>
     (\<forall>k. e \<le> k \<and> k < e' \<longrightarrow> 0 < bc + depth (slice content e k)) \<and>
     (0 < bc' \<longrightarrow> e' = length content)"
proof (induction content bc e rule: brace_scan.induct)
  case (1 content bc e)
  show ?case
  proof (cases "0 < bc \<and> e < length content")
    case False
    with "1.prems"(1) have "bc' = bc" "e' = e"
      by (simp_all add: brace_scan_stop)
    with False "1.prems" show ?thesis
      by (auto simp: slice_self)
  next
    case True
    define bc1 where "bc1 = (if content ! e = LBRACE then bc + 1
              else if content ! e = RBRACE then bc - 1 else bc)"
    have d: "bc1 = bc + depth [content ! e]"
      by (simp add: bc1_def LBRACE_def RBRACE_def)
    from True "1.prems"(1) have rec: "brace_scan content bc1 (e + 1) = (bc', e')"
      unfolding bc1_def by (simp only: brace_scan_go)
    have nn: "0 \<le> bc1" using True by (auto simp: bc1_def)
    have le: "e + 1 \<le> length content" using True by simp
    have ih: "e + 1 \<le> e' \<and> e' \<le> length content \<and> 0 \<le> bc' \<and>
      bc' = bc1 + depth (slice content (e + 1) e') \<and>
      (\<forall>k. e + 1 \<le> k \<and> k < e' \<longrightarrow> 0 < bc1 + depth (slice content (e + 1) k)) \<and>
      (0 < bc' \<longrightarrow> e' = length content)"
      using "1.IH"[OF True rec[unfolded bc1_def] nn[unfolded bc1_def] le]
      unfolding bc1_def .
    have IH: "e + 1 \<le> e'" "e' \<le> length content" "0 \<le> bc'"
      "bc' = bc1 + depth (slice content (e + 1) e')"
      "\<forall>k. e + 1 \<le> k \<and> k < e' \<longrightarrow> 0 < bc1 + depth (slice content (e + 1) k)"
      "0 < bc' \<longrightarrow> e' = length content"
      using ih by (rule conjunct1, (rule conjunct2 [THEN conjunct1]), blast, blast, blast, blast)
    have st: "depth (slice content e k) = depth [content ! e] + depth (slice content (e + 1) k)"
      if "e < k" for k
      using True that slice_step[of e content k] by simp
    have "0 < bc + depth (slice content e k)" if k: "e \<le> k \<and> k < e'" for k
    proof (cases "k = e")
      case True then show ?thesis using \<open>0 < bc \<and> e < length content\<close> by (simp add: slice_self)
    next
      case False
      then have "e + 1 \<le> k" "e < k" using k by auto
      then have "0 < bc1 + depth (slice content (e + 1) k)"
        using IH(5) k by blast
      then show ?thesis
        unfolding st[OF \<open>e < k\<close>] d by linarith
    qed
    moreover have "bc' = bc + depth (slice content e e')"
    proof -
      have "e < e'" using IH(1) by simp
      show ?thesis
        unfolding st[OF \<open>e < e'\<close>] using IH(4) d by linarith
    qed
    moreover have "e \<le> e'" using IH(1) by simp
    ultimately show ?thesis using IH(2,3,6) by blast
  qed
qed


lemma find_char_None: "find_char c xs = None \<longleftrightarrow> c \<notin> set xs"
  by (induction xs) auto

lemma find_char_Some:
  "find_char c xs = Some i \<Longrightarrow> i < length xs \<and> xs ! i = c \<and> c \<notin> set (take i xs)"
  by (induction xs arbitrary: i) (auto split: if_splits)

lemma find_char_append:
  "c \<notin> set pre \<Longrightarrow> find_char c (pre @ c # rest) = Some (length pre)"
  by (induction pre) auto

lemma find_char_dropWhile:
  "find_char c xs = Some i \<Longrightarrow> dropWhile (\<lambda>x. x \<noteq> c) xs = drop i xs"
  by (induction xs arbitrary: i) (auto split: if_splits)

lemma scan_after_brace:
  assumes i: "i < length content" "content ! i = LBRACE"
    and sc: "brace_scan content 1 (i + 1) = (bc', e')"
  shows "i < e'" "e' \<le> length content" "0 \<le> bc'"
    "bc' = depth (slice content i e')"
    "\<And>k. i < k \<Longrightarrow> k < e' \<Longrightarrow> 0 < depth (slice content i k)"
    "0 < bc' \<Longrightarrow> e' = length content"
proof -
  have le: "i + 1 \<le> length content" using i(1) by simp
  have one: "(0::int) \<le> 1" by simp
  note p = brace_scan_props[OF sc one le]
  have p1: "i + 1 \<le> e'" using p by (rule conjunct1)
  have p2: "e' \<le> length content" using p by blast
  have p3: "0 \<le> bc'" using p by blast
  have p4: "bc' = 1 + depth (slice content (i + 1) e')" using p by blast
  have p5: "\<forall>k. i + 1 \<le> k \<and> k < e' \<longrightarrow> 0 < 1 + depth (slice content (i + 1) k)"
    using p by blast
  have p6: "0 < bc' \<longrightarrow> e' = length content"
    using p by blast
  have hd: "depth [content ! i] = 1"
    by (simp add: i(2))
  have st: "depth (slice content i k) = 1 + depth (slice content (i + 1) k)" if "i < k" for k
  proof -
    have "slice content i k = [content ! i] @ slice content (i + 1) k"
      using slice_step[OF i(1) that] by simp
    then show ?thesis
      by (simp only: depth_append hd)
  qed
  show "i < e'" using p1 by simp
  show "e' \<le> length content" by (rule p2)
  show "0 \<le> bc'" by (rule p3)
  show "bc' = depth (slice content i e')"
  proof -
    have "i < e'" using p1 by simp
    from st[OF this] p4 show ?thesis by linarith
  qed
  show "0 < depth (slice content i k)" if "i < k" "k < e'" for k
  proof -
    have "i + 1 \<le> k \<and> k < e'" using that by simp
    with p5 have "0 < 1 + depth (slice content (i + 1) k)" by blast
    with st[OF that(1)] show ?thesis by linarith
  qed
  show "e' = length content" if "0 < bc'" using p6 that by blast
qed

lemma candidate_span_sound:
  assumes "candidate_span content = Inr s"
  shows "\<exists>pre suf. content = pre @ s @ suf \<and> LBRACE \<notin> set pre \<and> closes_first s"
proof -
  from assms obtain i where fi: "find_char LBRACE content = Some i"
    by (auto simp: candidate_span_def split: option.splits)
  obtain bc' e' where sc: "brace_scan content 1 (i + 1) = (bc', e')"
    by (cases "brace_scan content 1 (i + 1)") auto
  from assms fi sc have nb: "\<not> 0 < bc'" and s: "s = slice content i e'"
    by (auto simp: candidate_span_def split: if_splits)
  from find_char_Some[OF fi] have i: "i < length content" "content ! i = LBRACE"
    and pre: "LBRACE \<notin> set (take i content)" by auto
  note sab = scan_after_brace[OF i sc]
  have len: "length s = e' - i" using sab(1,2) by (simp add: s slice_def)
  have tk: "take k s = slice content i (i + k)" if "k \<le> e' - i" for k
    using that by (simp add: s slice_def min_def)
  have "content = take i content @ s @ drop e' content"
  proof -
    have "drop i content = take (e' - i) (drop i content) @ drop (e' - i) (drop i content)"
      by (simp only: append_take_drop_id)
    also have "drop (e' - i) (drop i content) = drop e' content"
      using sab(1) by simp
    finally have "drop i content = s @ drop e' content"
      by (simp add: s slice_def)
    then show ?thesis
      by (metis append_take_drop_id)
  qed
  moreover have "closes_first s"
    unfolding closes_first_iff
  proof (intro conjI ballI)
    show "s \<noteq> []" using len sab(1) by auto
    show "hd s = LBRACE"
      using i sab(1) by (simp add: s slice_def hd_drop_conv_nth)
    show "depth s = 0" using sab(3,4) nb by (simp add: s)
    fix k assume "k \<in> {1..<length s}"
    then have k: "1 \<le> k" "k < e' - i" using len by auto
    then have "0 < depth (slice content i (i + k))"
      using sab(5)[of "i + k"] by simp
    then show "0 < depth (take k s)" using tk[of k] k by simp
  qed
  ultimately show ?thesis using pre by blast
qed

lemma candidate_span_complete:
  assumes c: "content = pre @ s @ suf" and pre: "LBRACE \<notin> set pre"
    and cf: "closes_first s"
  shows "candidate_span content = Inr s"
proof -
  define i where "i = length pre"
  define n where "n = length s"
  from cf obtain t where s: "s = LBRACE # t"
    by (cases s) (auto simp: closes_first_iff)
  have fi: "find_char LBRACE content = Some i"
    unfolding c s i_def using find_char_append[OF pre] by simp
  have i: "i < length content" "content ! i = LBRACE"
    using find_char_Some[OF fi] by auto
  obtain bc' e' where sc: "brace_scan content 1 (i + 1) = (bc', e')"
    by (cases "brace_scan content 1 (i + 1)") auto
  note sab = scan_after_brace[OF i sc]
  have sl: "slice content i (i + k) = take k s" if "k \<le> n" for k
    using that by (simp add: c slice_def i_def n_def)
  have n0: "0 < n" by (simp add: n_def s)
  have inl: "i + n \<le> length content" by (simp add: c i_def n_def)
  have d0: "depth s = 0" and pos: "\<And>k. 1 \<le> k \<Longrightarrow> k < n \<Longrightarrow> 0 < depth (take k s)"
    using cf by (auto simp: closes_first_iff n_def)
  have e': "e' = i + n"
  proof (rule ccontr)
    assume ne: "e' \<noteq> i + n"
    show False
    proof (cases "e' < i + n")
      case True
      then have k: "1 \<le> e' - i" "e' - i < n" using sab(1) by auto
      have "e' \<noteq> length content" using True inl by simp
      then have "bc' = 0" using sab(3,6) by force
      then have "depth (slice content i e') = 0" using sab(4) by simp
      moreover have "slice content i e' = take (e' - i) s"
        using sl[of "e' - i"] k sab(1) by simp
      ultimately show False using pos[OF k] by simp
    next
      case False
      with ne have "i + n < e'" by simp
      then have "0 < depth (slice content i (i + n))"
        using sab(5)[of "i + n"] n0 by simp
      then show False using sl[of n] d0 by (simp add: n_def)
    qed
  qed
  have "bc' = 0" using sab(4) sl[of n] d0 e' by (simp add: n_def)
  moreover have "slice content i e' = s" using sl[of n] e' by (simp add: n_def)
  ultimately show ?thesis
    using sc by (simp add: candidate_span_def fi)
qed

lemma candidate_span_incomplete:
  "candidate_span content = Inl IncompleteJson \<longleftrightarrow>
     (\<exists>i. find_char LBRACE content = Some i \<and> never_closes (drop i content))"
proof
  assume a: "candidate_span content = Inl IncompleteJson"
  then obtain i where fi: "find_char LBRACE content = Some i"
    by (auto simp: candidate_span_def split: option.splits)
  obtain bc' e' where sc: "brace_scan content 1 (i + 1) = (bc', e')"
    by (cases "brace_scan content 1 (i + 1)") auto
  from a fi sc have pos: "0 < bc'"
    by (auto simp: candidate_span_def split: if_splits)
  from find_char_Some[OF fi] have i: "i < length content" "content ! i = LBRACE"
    by auto
  note sab = scan_after_brace[OF i sc]
  have e': "e' = length content" using sab(6) pos by simp
  have "never_closes (drop i content)"
    unfolding never_closes_iff
  proof
    fix k assume "k \<in> {1..<length (drop i content) + 1}"
    then have k: "1 \<le> k" "i + k \<le> length content" by auto
    have tk: "take k (drop i content) = slice content i (i + k)"
      by (simp add: slice_def)
    show "0 < depth (take k (drop i content))"
    proof (cases "i + k < e'")
      case True
      then show ?thesis using sab(5)[of "i + k"] k(1) tk by simp
    next
      case False
      then have "i + k = e'" using k(2) e' by simp
      then show ?thesis using sab(4) pos tk by simp
    qed
  qed
  with fi show "\<exists>i. find_char LBRACE content = Some i \<and> never_closes (drop i content)"
    by blast
next
  assume "\<exists>i. find_char LBRACE content = Some i \<and> never_closes (drop i content)"
  then obtain i where fi: "find_char LBRACE content = Some i"
    and nc: "never_closes (drop i content)" by blast
  obtain bc' e' where sc: "brace_scan content 1 (i + 1) = (bc', e')"
    by (cases "brace_scan content 1 (i + 1)") auto
  from find_char_Some[OF fi] have i: "i < length content" "content ! i = LBRACE"
    by auto
  note sab = scan_after_brace[OF i sc]
  have "0 < bc'"
  proof (rule ccontr)
    assume "\<not> 0 < bc'"
    then have "bc' = 0" using sab(3) by simp
    then have z: "depth (slice content i e') = 0" using sab(4) by simp
    have "e' - i \<in> {1..<length (drop i content) + 1}" using sab(1,2) by auto
    then have "0 < depth (take (e' - i) (drop i content))"
      using nc unfolding never_closes_iff by blast
    then show False using z by (simp add: slice_def)
  qed
  then show "candidate_span content = Inl IncompleteJson"
    using sc by (simp add: candidate_span_def fi)
qed

text \<open>
  C4. The extractor finds the first opening brace and counts over the raw characters,
  \<open>+1\<close> on every opening and \<open>-1\<close> on every closing brace, whether or not the brace
  stands inside a quoted string; the payload is exactly the span from that first
  opening brace up to and including the character at which the counter first returns
  to zero, and that span is what the JSON parser is given.
\<close>

theorem candidate_span_first_closing_span:
  "(candidate_span content = Inr s \<longleftrightarrow>
      (\<exists>pre suf. content = pre @ s @ suf \<and> LBRACE \<notin> set pre \<and> closes_first s)) \<and>
   (candidate_span content = Inr s \<longrightarrow>
      extract_json loads content =
        (case loads s of Inl e \<Rightarrow> Inl (Raised e) | Inr data \<Rightarrow> Inr data))"
proof (intro conjI iffI impI)
  assume "candidate_span content = Inr s"
  then show "\<exists>pre suf. content = pre @ s @ suf \<and> LBRACE \<notin> set pre \<and> closes_first s"
    by (rule candidate_span_sound)
next
  assume "\<exists>pre suf. content = pre @ s @ suf \<and> LBRACE \<notin> set pre \<and> closes_first s"
  then show "candidate_span content = Inr s"
    using candidate_span_complete by blast
next
  assume "candidate_span content = Inr s"
  then show "extract_json loads content =
        (case loads s of Inl e \<Rightarrow> Inl (Raised e) | Inr data \<Rightarrow> Inr data)"
    by (simp add: extract_json_def)
qed

text \<open>At the text \<^verbatim>\<open>xy{"a":"}"}\<close> the closing brace inside the string literal ends the
  span: the payload is \<^verbatim>\<open>{"a":"}\<close>.\<close>

theorem candidate_span_first_closing_span_witness:
  "candidate_span (str ''xy{\"a\":\"}\"}'') = Inr (str ''{\"a\":\"}'') \<and>
   extract_json (\<lambda>t. Inl JSONDecodeError :: exn + unit json) (str ''xy{\"a\":\"}\"}'')
     = Inl (Raised JSONDecodeError)"
proof -
  have 1: "str ''xy{\"a\":\"}\"}'' = str ''xy'' @ str ''{\"a\":\"}'' @ str ''\"}''"
    by (simp add: str_def)
  have 2: "LBRACE \<notin> set (str ''xy'')"
    by code_simp
  have 3: "closes_first (str ''{\"a\":\"}'')"
    by code_simp
  have h: "\<exists>pre suf. str ''xy{\"a\":\"}\"}'' = pre @ str ''{\"a\":\"}'' @ suf \<and>
      LBRACE \<notin> set pre \<and> closes_first (str ''{\"a\":\"}'')"
    using 1 2 3 by blast
  note t = candidate_span_first_closing_span
    [of "str ''xy{\"a\":\"}\"}''" "str ''{\"a\":\"}''"
        "\<lambda>t. Inl JSONDecodeError :: exn + unit json"]
  have a: "candidate_span (str ''xy{\"a\":\"}\"}'') = Inr (str ''{\"a\":\"}'')"
    using t[THEN conjunct1] h by (rule iffD2)
  have "extract_json (\<lambda>t. Inl JSONDecodeError :: exn + unit json) (str ''xy{\"a\":\"}\"}'')
     = (case (Inl JSONDecodeError :: exn + unit json) of
          Inl e \<Rightarrow> Inl (Raised e) | Inr data \<Rightarrow> Inr data)"
    using t[THEN conjunct2] a by (rule mp)
  with a show ?thesis by simp
qed

text \<open>
  C5. The extraction stops as incomplete exactly when the text has an opening brace
  and the counter, started at the first one, never returns to zero before the end of
  the text; the file then yields no scan.
\<close>

theorem incomplete_json_iff:
  "(candidate_span content = Inl IncompleteJson \<longleftrightarrow>
      LBRACE \<in> set content \<and>
      never_closes (dropWhile (\<lambda>c. c \<noteq> LBRACE) content)) \<and>
   (candidate_span (strip_bom raw) = Inl IncompleteJson \<longrightarrow>
      parse_steps loads (Inr raw) = Inl IncompleteJson \<and>
      parse_pessession_file loads (Inr raw) = [])"
proof (intro conjI iffI impI)
  assume "candidate_span content = Inl IncompleteJson"
  then obtain i where fi: "find_char LBRACE content = Some i"
    and nc: "never_closes (drop i content)"
    using candidate_span_incomplete by blast
  from fi have "LBRACE \<in> set content"
    using find_char_None[of LBRACE content] by auto
  then show "LBRACE \<in> set content" .
  show "never_closes (dropWhile (\<lambda>c. c \<noteq> LBRACE) content)"
    using nc find_char_dropWhile[OF fi] by simp
next
  assume a: "LBRACE \<in> set content \<and>
      never_closes (dropWhile (\<lambda>c. c \<noteq> LBRACE) content)"
  then obtain i where fi: "find_char LBRACE content = Some i"
    using find_char_None[of LBRACE content] by (cases "find_char LBRACE content") auto
  with a have "never_closes (drop i content)"
    using find_char_dropWhile[OF fi] by simp
  with fi show "candidate_span content = Inl IncompleteJson"
    using candidate_span_incomplete by blast
next
  assume "candidate_span (strip_bom raw) = Inl IncompleteJson"
  then show "parse_steps loads (Inr raw) = Inl IncompleteJson"
    by (simp add: parse_steps_def extract_json_def)
next
  assume "candidate_span (strip_bom raw) = Inl IncompleteJson"
  then show "parse_pessession_file loads (Inr raw) = []"
    by (simp add: parse_pessession_file_def parse_steps_def extract_json_def)
qed

text \<open>The text \<^verbatim>\<open>ab{x{y}z\<close> opens two braces and closes one.\<close>

theorem incomplete_json_iff_witness:
  "candidate_span (str ''ab{x{y}z'') = Inl IncompleteJson \<and>
   parse_pessession_file (\<lambda>t. Inr JNull :: exn + unit json) (Inr (str ''ab{x{y}z'')) = []"
proof -
  have h: "LBRACE \<in> set (str ''ab{x{y}z'') \<and>
      never_closes (dropWhile (\<lambda>c. c \<noteq> LBRACE) (str ''ab{x{y}z''))"
    by code_simp
  have s: "strip_bom (str ''ab{x{y}z'') = str ''ab{x{y}z''"
    by (simp add: strip_bom_def str_def BOM_def)
  note t = incomplete_json_iff
    [of "str ''ab{x{y}z''" "str ''ab{x{y}z''" "\<lambda>t. Inr JNull :: exn + unit json"]
  have a: "candidate_span (str ''ab{x{y}z'') = Inl IncompleteJson"
    using t[THEN conjunct1] h by (rule iffD2)
  have "parse_steps (\<lambda>t. Inr JNull :: exn + unit json) (Inr (str ''ab{x{y}z''))
       = Inl IncompleteJson \<and>
     parse_pessession_file (\<lambda>t. Inr JNull :: exn + unit json) (Inr (str ''ab{x{y}z'')) = []"
    using t[THEN conjunct2] a unfolding s by (rule mp)
  with a show ?thesis by blast
qed

text \<open>
  C6. When the extraction returns a span, the extraction applied to that span
  returns the same span, no byte-order mark is stripped from it, and the JSON parser
  is given the same text, so that it parses again to the same document.
\<close>

theorem extraction_idempotent:
  "candidate_span content = Inr s \<Longrightarrow>
     candidate_span s = Inr s \<and> strip_bom s = s \<and>
     extract_json loads s = extract_json loads content"
proof -
  assume a: "candidate_span content = Inr s"
  then have cf: "closes_first s"
    using candidate_span_sound by blast
  have "s = [] @ s @ []" by simp
  moreover have "LBRACE \<notin> set []" by simp
  ultimately have b: "candidate_span s = Inr s"
    using cf by (rule candidate_span_complete)
  from cf obtain t where "s = LBRACE # t"
    by (cases s) (auto simp: closes_first_iff)
  then have "strip_bom s = s"
    by (simp add: strip_bom_def LBRACE_def BOM_def)
  moreover have "extract_json loads s = extract_json loads content"
    using a b by (simp add: extract_json_def)
  ultimately show ?thesis using b by blast
qed

theorem extraction_idempotent_witness:
  "candidate_span (str ''ab{x{y}z}cd}'') = Inr (str ''{x{y}z}'') \<and>
   candidate_span (str ''{x{y}z}'') = Inr (str ''{x{y}z}'') \<and>
   extract_json (\<lambda>t. Inr (JObj []) :: exn + unit json) (str ''{x{y}z}'')
     = extract_json (\<lambda>t. Inr (JObj [])) (str ''ab{x{y}z}cd}'')"
proof -
  have h: "candidate_span (str ''ab{x{y}z}cd}'') = Inr (str ''{x{y}z}'')"
    by code_simp
  from extraction_idempotent[OF h, of "\<lambda>t. Inr (JObj []) :: exn + unit json"] h
  show ?thesis by blast
qed

subsection \<open>The scan assembler\<close>

lemma V_of_JObj: "V_of (JObj items) = map_of items k_V"
  by (simp add: V_of_def)

lemma getitem_each_shaped:
  "list_all point_shaped points \<Longrightarrow>
     getitem_each points k_V = Inr (List.map_filter V_of points)"
proof (induction points)
  case Nil
  then show ?case by simp
next
  case (Cons p ps)
  from Cons.prems obtain items where p: "p = JObj items" and k: "k_V \<in> set (map fst items)"
    by (cases p) (auto simp: point_shaped_def)
  from k obtain v where v: "map_of items k_V = Some v"
    by (cases "map_of items k_V") (auto simp: map_of_eq_None_iff)
  from Cons have "getitem_each ps k_V = Inr (List.map_filter V_of ps)"
    by simp
  then show ?case
    by (simp add: p v V_of_JObj)
qed

lemma in_keys_iff: "k \<in> fst ` set items \<longleftrightarrow> map_of items k \<noteq> None"
  by (simp add: map_of_eq_None_iff)

lemma axis_values_absent:
  "map_of items axis = None \<Longrightarrow> axis_values axis (JObj items) = Inr []"
  by (simp add: axis_values_def in_keys_iff)

lemma axis_values_no_values:
  "map_of items axis = Some (JObj a) \<Longrightarrow> map_of a k_DataValues = None \<Longrightarrow>
     axis_values axis (JObj items) = Inr []"
  by (simp add: axis_values_def in_keys_iff)

lemma axis_values_present:
  "map_of items axis = Some (JObj a) \<Longrightarrow> map_of a k_DataValues = Some (JArr points) \<Longrightarrow>
     axis_values axis (JObj items) = getitem_each points k_V"
  by (simp add: axis_values_def in_keys_iff)

lemma axis_values_shaped:
  assumes "case map_of items axis of None \<Rightarrow> True | Some a \<Rightarrow> axis_shaped a"
  shows "axis_values axis (JObj items) = Inr (V_series axis (JObj items))"
proof (cases "map_of items axis")
  case None
  then show ?thesis
    by (simp add: axis_values_absent V_series_def)
next
  case (Some a)
  with assms have sh: "axis_shaped a" by simp
  then obtain ai where a: "a = JObj ai"
    by (cases a) (auto simp: axis_shaped_def)
  show ?thesis
  proof (cases "map_of ai k_DataValues")
    case None
    then show ?thesis
      using Some a by (simp add: axis_values_no_values V_series_def)
  next
    case (Some dv)
    with sh a obtain points where dv: "dv = JArr points"
      and pts: "list_all point_shaped points"
      by (cases dv) (auto simp: axis_shaped_def)
    have "axis_values axis (JObj items) = getitem_each points k_V"
      using \<open>map_of items axis = Some a\<close> a Some dv by (simp add: axis_values_present)
    also have "\<dots> = Inr (List.map_filter V_of points)"
      using pts by (rule getitem_each_shaped)
    finally show ?thesis
      using \<open>map_of items axis = Some a\<close> a Some dv by (simp add: V_series_def)
  qed
qed

lemma curve_body_shaped:
  assumes "curve_shaped c"
  shows "curve_body all_scans i c = Inr (all_scans @ curve_records i c)"
proof -
  from assms obtain items where c: "c = JObj items"
    and x: "case map_of items k_XAxisDataArray of None \<Rightarrow> True | Some a \<Rightarrow> axis_shaped a"
    and y: "case map_of items k_YAxisDataArray of None \<Rightarrow> True | Some a \<Rightarrow> axis_shaped a"
    by (cases c) (auto simp: curve_shaped_def)
  show ?thesis
    unfolding c curve_body_def axis_values_shaped[OF x] axis_values_shaped[OF y]
    by (simp add: curve_records_def survives_def)
qed

lemma curves_loop_shaped:
  "list_all curve_shaped cs \<Longrightarrow>
     curves_loop all_scans i cs =
       Inr (all_scans @ concat (map (\<lambda>(k, c). curve_records k c) (enumerate i cs)))"
proof (induction cs arbitrary: all_scans i)
  case Nil
  then show ?case by simp
next
  case (Cons c cs)
  then have c: "curve_shaped c" and cs: "list_all curve_shaped cs" by simp_all
  show ?case
    by (simp add: curve_body_shaped[OF c] Cons.IH[OF cs])
qed

lemma measurement_body_shaped:
  assumes "measurement_shaped m"
  shows "measurement_body all_scans m = Inr (all_scans @ measurement_records m)"
proof -
  from assms obtain items where m: "m = JObj items"
    by (cases m) (auto simp: measurement_shaped_def)
  show ?thesis
  proof (cases "map_of items k_Curves")
    case None
    then show ?thesis
      by (simp add: m measurement_body_def in_keys_iff measurement_records_def curves_of_def)
  next
    case (Some cv)
    with assms m obtain cs where cv: "cv = JArr cs" and cs: "list_all curve_shaped cs"
      by (cases cv) (auto simp: measurement_shaped_def)
    show ?thesis
      using Some cv
      by (simp add: m measurement_body_def in_keys_iff measurement_records_def curves_of_def
            curves_loop_shaped[OF cs])
  qed
qed

lemma measurements_loop_shaped:
  "list_all measurement_shaped ms \<Longrightarrow>
     measurements_loop all_scans ms = Inr (all_scans @ concat (map measurement_records ms))"
proof (induction ms arbitrary: all_scans)
  case Nil
  then show ?case by simp
next
  case (Cons m ms)
  then have m: "measurement_shaped m" and ms: "list_all measurement_shaped ms" by simp_all
  show ?case
    by (simp add: measurement_body_shaped[OF m] Cons.IH[OF ms])
qed

lemma assemble_shaped:
  assumes "session_shaped d"
  shows "assemble d = Inr (session_records d)"
proof -
  from assms obtain items where d: "d = JObj items"
    by (cases d) (auto simp: session_shaped_def)
  show ?thesis
  proof (cases "map_of items k_Measurements")
    case None
    then show ?thesis
      by (simp add: d assemble_def in_keys_iff session_records_def measurements_of_def)
  next
    case (Some mv)
    with assms d obtain ms where mv: "mv = JArr ms" and ms: "list_all measurement_shaped ms"
      by (cases mv) (auto simp: session_shaped_def)
    have sr: "session_records d = concat (map measurement_records ms)"
      using Some mv by (simp add: d session_records_def measurements_of_def)
    have ml: "measurements_loop [] ms = Inr (session_records d)"
      unfolding sr using measurements_loop_shaped[OF ms, of "[]"] by simp
    have "assemble d = (if 0 < length ms then measurements_loop [] ms else Inr [])"
      using Some mv by (simp add: d assemble_def in_keys_iff)
    also have "\<dots> = Inr (session_records d)"
    proof (cases "ms = []")
      case True
      then show ?thesis by (simp add: sr)
    next
      case False
      then show ?thesis by (simp add: ml)
    qed
    finally show ?thesis .
  qed
qed

lemma measurements_of_shaped:
  "session_shaped d \<Longrightarrow> list_all measurement_shaped (measurements_of d)"
  by (auto simp: session_shaped_def measurements_of_def split: json.splits option.splits)

lemma scan_numbers_of_curves:
  "map scan_number (concat (map (\<lambda>(i, c). curve_records i c) ics)) =
     map (\<lambda>(i, c). i + 1) (filter (\<lambda>(i, c). survives c) ics)"
  by (induction ics) (auto simp: curve_records_def)

lemma scan_numbers_of_measurement:
  "map scan_number (measurement_records m) =
     map (\<lambda>(i, c). i + 1) (filter (\<lambda>(i, c). survives c) (enumerate 0 (curves_of m)))"
  unfolding measurement_records_def by (rule scan_numbers_of_curves)

lemma scan_numbers_of_session:
  "map scan_number (concat (map measurement_records ms)) =
     concat (map (\<lambda>m. map (\<lambda>(i, c). i + 1)
                        (filter (\<lambda>(i, c). survives c) (enumerate 0 (curves_of m)))) ms)"
  by (induction ms) (simp_all add: scan_numbers_of_measurement)




lemma sorted_scan_numbers:
  "sorted_wrt (<) (map scan_number (measurement_records m))"
proof -
  let ?ics = "enumerate 0 (curves_of m)"
  have "sorted_wrt (<) (map fst ?ics)"
    by (simp add: strict_sorted_iff)
  then have "sorted_wrt (\<lambda>x y. fst x < fst y) ?ics"
    by (simp only: sorted_wrt_map)
  then have "sorted_wrt (\<lambda>x y. fst x < fst y) (filter (\<lambda>(i, c). survives c) ?ics)"
    by (rule sorted_wrt_filter)
  then have "sorted_wrt (<) (map (\<lambda>(i, c). i + 1) (filter (\<lambda>(i, c). survives c) ?ics))"
    unfolding sorted_wrt_map by (simp add: case_prod_beta)
  then show ?thesis
    by (simp only: scan_numbers_of_measurement)
qed

text \<open>
  C1. For every curve of a document of the data model, the assembler emits exactly
  one record, holding the ordered \<open>V\<close> values of \<open>XAxisDataArray.DataValues\<close> and of
  \<open>YAxisDataArray.DataValues\<close>, when both series are non-empty and of one length, and
  no record otherwise: the output is the concatenation, over the measurements and
  their curves in order, of these contributions.
\<close>

theorem curve_gives_one_record_iff_paired:
  assumes "session_shaped d"
  shows "assemble d =
     Inr (concat (map (\<lambda>m. concat (map (\<lambda>(i, c).
            if V_series k_XAxisDataArray c \<noteq> [] \<and> V_series k_YAxisDataArray c \<noteq> [] \<and>
               length (V_series k_XAxisDataArray c) = length (V_series k_YAxisDataArray c)
            then [\<lparr>scan_number = i + 1,
                   potential = V_series k_XAxisDataArray c,
                   current = V_series k_YAxisDataArray c\<rparr>]
            else [])
          (enumerate 0 (curves_of m)))) (measurements_of d)))"
  using assemble_shaped[OF assms]
  unfolding session_records_def measurement_records_def curve_records_def survives_def .

theorem curve_gives_one_record_iff_paired_witness:
  "session_shaped ex_doc \<and>
   assemble ex_doc =
     Inr [\<lparr>scan_number = 2, potential = [JNum 0, JNum 5], current = [JNum 7, JNum 8]\<rparr>,
          \<lparr>scan_number = 1, potential = [JNum 1], current = [JNum 2]\<rparr>]"
proof -
  have h: "session_shaped ex_doc"
    by code_simp
  have v: "concat (map (\<lambda>m. concat (map (\<lambda>(i, c).
            if V_series k_XAxisDataArray c \<noteq> [] \<and> V_series k_YAxisDataArray c \<noteq> [] \<and>
               length (V_series k_XAxisDataArray c) = length (V_series k_YAxisDataArray c)
            then [\<lparr>scan_number = i + 1,
                   potential = V_series k_XAxisDataArray c,
                   current = V_series k_YAxisDataArray c\<rparr>]
            else [])
          (enumerate 0 (curves_of m)))) (measurements_of ex_doc)) =
     [\<lparr>scan_number = 2, potential = [JNum 0, JNum 5], current = [JNum 7, JNum 8]\<rparr>,
      \<lparr>scan_number = 1, potential = [JNum 1], current = [JNum 2]\<rparr>]"
    by code_simp
  show ?thesis
    using h curve_gives_one_record_iff_paired[OF h] unfolding v by (rule conjI)
qed




text \<open>
  C3. The scan numbers of the output are, measurement by measurement, the positions
  plus one that the surviving curves have in the curve list of their measurement:
  the position in the source list, not among the survivors, and counted from zero
  again in every measurement.
\<close>

theorem scan_number_is_source_position:
  assumes "session_shaped d"
  shows "\<exists>scans. assemble d = Inr scans \<and>
     map scan_number scans =
       concat (map (\<lambda>m. map (\<lambda>(i, c). i + 1)
                          (filter (\<lambda>(i, c). survives c) (enumerate 0 (curves_of m))))
                   (measurements_of d))"
proof -
  have "map scan_number (session_records d) =
       concat (map (\<lambda>m. map (\<lambda>(i, c). i + 1)
                          (filter (\<lambda>(i, c). survives c) (enumerate 0 (curves_of m))))
                   (measurements_of d))"
    unfolding session_records_def by (rule scan_numbers_of_session)
  with assemble_shaped[OF assms] show ?thesis by blast
qed

theorem scan_number_is_source_position_witness:
  "session_shaped ex_doc \<and>
   (\<exists>scans. assemble ex_doc = Inr scans \<and> map scan_number scans = [2, 1])"
proof -
  have h: "session_shaped ex_doc"
    by code_simp
  have v: "concat (map (\<lambda>m. map (\<lambda>(i, c). i + 1)
                          (filter (\<lambda>(i, c). survives c) (enumerate 0 (curves_of m))))
                   (measurements_of ex_doc)) = [2, 1]"
    by code_simp
  show ?thesis
    using h scan_number_is_source_position[OF h] unfolding v by (rule conjI)
qed

text \<open>
  C9. The output is the concatenation, in the order of the measurements, of what
  each measurement gives by itself; the records of one measurement come in the order
  of its curves, and their scan numbers increase strictly.
\<close>

theorem records_in_document_order:
  assumes "session_shaped d"
  shows "\<exists>groups. assemble d = Inr (concat groups) \<and>
     length groups = length (measurements_of d) \<and>
     (\<forall>j < length groups.
        measurement_body [] (measurements_of d ! j) = Inr (groups ! j) \<and>
        groups ! j =
          concat (map (\<lambda>(i, c). curve_records i c)
                      (enumerate 0 (curves_of (measurements_of d ! j)))) \<and>
        sorted_wrt (<) (map scan_number (groups ! j)))"
proof -
  let ?ms = "measurements_of d"
  let ?groups = "map measurement_records ?ms"
  have a: "assemble d = Inr (concat ?groups)"
    using assemble_shaped[OF assms] by (simp add: session_records_def)
  have b: "measurement_body [] (?ms ! j) = Inr (?groups ! j) \<and>
        ?groups ! j =
          concat (map (\<lambda>(i, c). curve_records i c) (enumerate 0 (curves_of (?ms ! j)))) \<and>
        sorted_wrt (<) (map scan_number (?groups ! j))"
    if j: "j < length ?groups" for j
  proof -
    from j have jl: "j < length ?ms" by simp
    have "measurement_shaped (?ms ! j)"
      using measurements_of_shaped[OF assms] jl by (simp add: list_all_length)
    then have "measurement_body [] (?ms ! j) = Inr (measurement_records (?ms ! j))"
      using measurement_body_shaped[of "?ms ! j" "[]"] by simp
    then show ?thesis
      using jl sorted_scan_numbers[of "?ms ! j"] by (simp add: measurement_records_def)
  qed
  have c: "length ?groups = length ?ms" by simp
  show ?thesis
    by (rule exI[of _ ?groups]) (use a b c in blast)
qed

theorem records_in_document_order_witness:
  "session_shaped ex_doc \<and>
   (\<exists>groups. assemble ex_doc = Inr (concat groups) \<and> length groups = 2 \<and>
      sorted_wrt (<) (map scan_number (groups ! 0)) \<and>
      sorted_wrt (<) (map scan_number (groups ! 1)))"
proof -
  have h: "session_shaped ex_doc"
    by code_simp
  have l: "length (measurements_of ex_doc) = 2"
    by code_simp
  from records_in_document_order[OF h] obtain groups where
    g: "assemble ex_doc = Inr (concat groups)" "length groups = length (measurements_of ex_doc)"
    "\<forall>j < length groups. sorted_wrt (<) (map scan_number (groups ! j))"
    by blast
  from g(2,3) l have "sorted_wrt (<) (map scan_number (groups ! 0))"
    "sorted_wrt (<) (map scan_number (groups ! 1))"
    by simp_all
  with g(1,2) l h show ?thesis by auto
qed

subsection \<open>Exceptions while walking the document\<close>

lemma py_iter_len: "py_iter x = Inr xs \<Longrightarrow> py_len x = Inr (length xs)"
  by (cases x) auto

lemma py_getitem_in: "py_getitem x key = Inr v \<Longrightarrow> py_in key x = Inr True"
  by (cases x) (auto simp: in_keys_iff split: option.splits)

lemma curve_body_raises:
  assumes "axis_values k_XAxisDataArray c = Inl e \<or> axis_values k_YAxisDataArray c = Inl e"
  shows "\<exists>e'. curve_body all_scans i c = Inl e'"
  using assms by (auto simp: curve_body_def split: sum.splits)

lemma curves_loop_raises:
  assumes "c \<in> set cs"
    and "axis_values k_XAxisDataArray c = Inl e \<or> axis_values k_YAxisDataArray c = Inl e"
  shows "\<exists>e'. curves_loop all_scans i cs = Inl e'"
  using assms(1)
proof (induction cs arbitrary: all_scans i)
  case Nil
  then show ?case by simp
next
  case (Cons x xs)
  show ?case
  proof (cases "curve_body all_scans i x")
    case (Inl e')
    then show ?thesis by simp
  next
    case (Inr acc)
    with curve_body_raises[OF assms(2), of all_scans i] have "c \<noteq> x" by auto
    with Cons.prems have "c \<in> set xs" by simp
    from Cons.IH[OF this, of acc "i + 1"] show ?thesis
      by (simp add: Inr)
  qed
qed

lemma measurement_body_raises:
  assumes "py_getitem m k_Curves = Inr cv" and "py_iter cv = Inr cs" and "c \<in> set cs"
    and "axis_values k_XAxisDataArray c = Inl e \<or> axis_values k_YAxisDataArray c = Inl e"
  shows "\<exists>e'. measurement_body all_scans m = Inl e'"
  using curves_loop_raises[OF assms(3,4), of all_scans 0]
  by (simp add: measurement_body_def py_getitem_in[OF assms(1)] assms(1,2))

lemma measurements_loop_raises:
  assumes "m \<in> set ms" and "\<And>acc. \<exists>e'. measurement_body acc m = Inl e'"
  shows "\<exists>e'. measurements_loop all_scans ms = Inl e'"
  using assms(1)
proof (induction ms arbitrary: all_scans)
  case Nil
  then show ?case by simp
next
  case (Cons x xs)
  show ?case
  proof (cases "measurement_body all_scans x")
    case (Inl e')
    then show ?thesis by simp
  next
    case (Inr acc)
    with assms(2)[of all_scans] have "m \<noteq> x" by auto
    with Cons.prems have "m \<in> set xs" by simp
    from Cons.IH[OF this, of acc] show ?thesis
      by (simp add: Inr)
  qed
qed

lemma assemble_raises:
  assumes "py_getitem d k_Measurements = Inr mv" and "py_iter mv = Inr ms" and "m \<in> set ms"
    and "py_getitem m k_Curves = Inr cv" and "py_iter cv = Inr cs" and "c \<in> set cs"
    and "axis_values k_XAxisDataArray c = Inl e \<or> axis_values k_YAxisDataArray c = Inl e"
  shows "\<exists>e'. assemble d = Inl e'"
proof -
  have "0 < length ms" using assms(3) by (cases ms) auto
  moreover have "\<exists>e'. measurements_loop [] ms = Inl e'"
    using measurements_loop_raises[OF assms(3)] measurement_body_raises[OF assms(4-7)]
    by blast
  ultimately show ?thesis
    by (auto simp: assemble_def py_getitem_in[OF assms(1)] assms(1,2) py_iter_len[OF assms(2)])
qed

lemma parse_of_raise:
  "extract_json loads (strip_bom raw) = Inr d \<Longrightarrow> assemble d = Inl e \<Longrightarrow>
     parse_pessession_file loads (Inr raw) = []"
  by (simp add: parse_pessession_file_def parse_steps_def)

text \<open>
  C8. When an exception is raised while the document is walked, whether by a data
  point without \<open>V\<close> (or any other failure inside a curve) or by a \<open>Measurements\<close>
  that has no length, \<^verbatim>\<open>parse_pessession_file\<close> returns the empty list: the records
  already appended for earlier curves and measurements are discarded.
\<close>

theorem parse_is_all_or_nothing:
  assumes "extract_json loads (strip_bom raw) = Inr d"
  shows "(assemble d = Inl e \<longrightarrow> parse_pessession_file loads (Inr raw) = []) \<and>
     (py_getitem d k_Measurements = Inr mv \<and> py_len mv = Inl e \<longrightarrow>
        parse_pessession_file loads (Inr raw) = []) \<and>
     (py_getitem d k_Measurements = Inr mv \<and> py_iter mv = Inr ms \<and> m \<in> set ms \<and>
      py_getitem m k_Curves = Inr cv \<and> py_iter cv = Inr cs \<and> c \<in> set cs \<and>
      (axis_values k_XAxisDataArray c = Inl e \<or> axis_values k_YAxisDataArray c = Inl e) \<longrightarrow>
        parse_pessession_file loads (Inr raw) = [])"
proof (intro conjI impI)
  assume "assemble d = Inl e"
  with assms show "parse_pessession_file loads (Inr raw) = []"
    by (rule parse_of_raise)
next
  assume a: "py_getitem d k_Measurements = Inr mv \<and> py_len mv = Inl e"
  then have "assemble d = Inl e"
    by (simp add: assemble_def py_getitem_in[of d k_Measurements mv])
  with assms show "parse_pessession_file loads (Inr raw) = []"
    by (rule parse_of_raise)
next
  assume "py_getitem d k_Measurements = Inr mv \<and> py_iter mv = Inr ms \<and> m \<in> set ms \<and>
      py_getitem m k_Curves = Inr cv \<and> py_iter cv = Inr cs \<and> c \<in> set cs \<and>
      (axis_values k_XAxisDataArray c = Inl e \<or> axis_values k_YAxisDataArray c = Inl e)"
  then obtain e' where "assemble d = Inl e'"
    using assemble_raises[of d mv ms m cv cs c e] by blast
  with assms show "parse_pessession_file loads (Inr raw) = []"
    by (rule parse_of_raise)
qed

theorem parse_is_all_or_nothing_witness:
  "curves_loop [] 0 [ex_curve [1, 2] [3, 4]] =
     Inr [\<lparr>scan_number = 1, potential = [JNum 1, JNum 2], current = [JNum 3, JNum 4]\<rparr>] \<and>
   assemble ex_bad = Inl KeyError \<and>
   parse_pessession_file (\<lambda>t. Inr ex_bad) (Inr (str ''{}'')) = [] \<and>
   parse_pessession_file (\<lambda>t. Inr ex_no_sequence)
     (Inr (str ''{}'')) = []"
proof -
  have s: "strip_bom (str ''{}'') = str ''{}''"
    by (simp add: strip_bom_def str_def BOM_def)
  have c: "candidate_span (str ''{}'') = Inr (str ''{}'')"
    by code_simp
  have x: "extract_json (\<lambda>t. Inr ex_bad) (strip_bom (str ''{}'')) = Inr ex_bad"
    by (simp add: s extract_json_def c)
  have y: "extract_json (\<lambda>t. Inr ex_no_sequence)
      (strip_bom (str ''{}'')) = Inr ex_no_sequence"
    by (simp add: s extract_json_def c)
  have good: "curves_loop [] 0 [ex_curve [1, 2] [3, 4]] =
     Inr [\<lparr>scan_number = 1, potential = [JNum 1, JNum 2], current = [JNum 3, JNum 4]\<rparr>]"
    by code_simp
  have a: "assemble ex_bad = Inl KeyError"
    by code_simp
  have h1: "py_getitem ex_bad k_Measurements =
      Inr (JArr [ex_measurement [ex_curve [1, 2] [3, 4], ex_bad_curve]])"
    by (simp add: ex_bad_def ex_session_def)
  have h2: "py_getitem (ex_measurement [ex_curve [1, 2] [3, 4], ex_bad_curve]) k_Curves =
      Inr (JArr [ex_curve [1, 2] [3, 4], ex_bad_curve])"
    by (simp add: ex_measurement_def)
  have h3: "axis_values k_XAxisDataArray ex_bad_curve = Inl KeyError"
    by code_simp
  have p1: "parse_pessession_file (\<lambda>t. Inr ex_bad) (Inr (str ''{}'')) = []"
    using parse_is_all_or_nothing[OF x, of KeyError
        "JArr [ex_measurement [ex_curve [1, 2] [3, 4], ex_bad_curve]]"
        "[ex_measurement [ex_curve [1, 2] [3, 4], ex_bad_curve]]"
        "ex_measurement [ex_curve [1, 2] [3, 4], ex_bad_curve]"
        "JArr [ex_curve [1, 2] [3, 4], ex_bad_curve]"
        "[ex_curve [1, 2] [3, 4], ex_bad_curve]" ex_bad_curve]
      h1 h2 h3
    by simp
  have h4: "py_getitem ex_no_sequence k_Measurements = Inr (JNum 5)"
    by (simp add: ex_no_sequence_def)
  have p2: "parse_pessession_file (\<lambda>t. Inr ex_no_sequence)
     (Inr (str ''{}'')) = []"
    using parse_is_all_or_nothing[OF y, of TypeError "JNum 5"] h4
    by simp
  show ?thesis using good a p1 p2 by blast
qed

subsection \<open>The table writer\<close>

lemma line_loop_ok:
  "list_all scan_ok scans \<Longrightarrow>
     line_loop fmt i line scans = Inr (line @ concat (map (cell_group fmt i) scans))"
proof (induction scans arbitrary: line)
  case Nil
  then show ?case by simp
next
  case (Cons scan scans)
  from Cons.prems have rest: "list_all scan_ok scans"
    by simp
  from Cons.prems have "scan_ok scan"
    by simp
  then have ok: "length (potential scan) = length (current scan)"
    by (simp add: scan_ok_def)
  show ?case
    using Cons.IH[OF rest] ok by (simp add: cell_group_def)
qed

lemma rows_loop_lines:
  "list_all scan_ok scans \<Longrightarrow>
     rows_loop encodes fmt scans output_file rows =
       (output_file @
          takeWhile encodes (map (\<lambda>i. concat (map (cell_group fmt i) scans) @ [NEWLINE]) rows),
        if list_all encodes (map (\<lambda>i. concat (map (cell_group fmt i) scans) @ [NEWLINE]) rows)
        then None else Some UnicodeEncodeError)"
proof (induction rows arbitrary: output_file)
  case Nil
  then show ?case by simp
next
  case (Cons i rows)
  show ?case
    using Cons.IH[OF Cons.prems] line_loop_ok[OF Cons.prems, of fmt i "[]"]
    by (simp add: file_write_def)
qed

lemma write_table_lines:
  assumes "all_scans \<noteq> []" and "list_all scan_ok all_scans"
  shows "write_table encodes fmt all_scans =
     (takeWhile encodes (table_lines fmt all_scans),
      if list_all encodes (table_lines fmt all_scans) then None else Some UnicodeEncodeError)"
  using assms(1) rows_loop_lines[OF assms(2), of encodes fmt]
  by (simp add: write_table_def max_points_of_def table_lines_def file_write_def)

lemma takeWhile_all: "list_all P xs \<Longrightarrow> takeWhile P xs = xs"
  by (induction xs) auto

text \<open>
  C7. For a non-empty sequence of scan records, each with series of one length, the
  writer writes the two header lines and then the data rows in order, up to the first
  line that the encoding of the output file cannot encode, where it stops with
  \<^verbatim>\<open>UnicodeEncodeError\<close>. When every line can be encoded, the table has exactly as many
  data rows as the longest potential series has points, and in row \<open>i\<close> each record, in
  order, gives the cell group \<^verbatim>\<open>potential[i]\tcurrent[i]\t\t\<close> when \<open>i\<close> is within its range
  and three tab characters otherwise.
\<close>

theorem table_rows:
  assumes "all_scans \<noteq> []" and "list_all scan_ok all_scans"
  shows "write_table encodes fmt all_scans =
       (takeWhile encodes (table_lines fmt all_scans),
        if list_all encodes (table_lines fmt all_scans) then None
        else Some UnicodeEncodeError) \<and>
     (list_all encodes (table_lines fmt all_scans) \<longrightarrow>
        write_table encodes fmt all_scans =
          ([header1 (length all_scans) @ [NEWLINE], header2 (length all_scans) @ [NEWLINE]] @
           map (\<lambda>i. concat (map (\<lambda>scan.
                   if i < length (potential scan)
                   then fmt (potential scan ! i) @ [TAB] @ fmt (current scan ! i) @ [TAB, TAB]
                   else [TAB, TAB, TAB]) all_scans) @ [NEWLINE])
               [0..<Max (set (map (\<lambda>scan. length (potential scan)) all_scans))],
           None))"
proof (intro conjI impI)
  show "write_table encodes fmt all_scans =
       (takeWhile encodes (table_lines fmt all_scans),
        if list_all encodes (table_lines fmt all_scans) then None
        else Some UnicodeEncodeError)"
    using assms by (rule write_table_lines)
next
  assume a: "list_all encodes (table_lines fmt all_scans)"
  have "write_table encodes fmt all_scans = (table_lines fmt all_scans, None)"
    using write_table_lines[OF assms, of encodes fmt] a takeWhile_all[OF a] by simp
  then show "write_table encodes fmt all_scans =
          ([header1 (length all_scans) @ [NEWLINE], header2 (length all_scans) @ [NEWLINE]] @
           map (\<lambda>i. concat (map (\<lambda>scan.
                   if i < length (potential scan)
                   then fmt (potential scan ! i) @ [TAB] @ fmt (current scan ! i) @ [TAB, TAB]
                   else [TAB, TAB, TAB]) all_scans) @ [NEWLINE])
               [0..<Max (set (map (\<lambda>scan. length (potential scan)) all_scans))],
           None)"
    unfolding table_lines_def cell_group_def .
qed

lemma ascii_utf8: "ascii_text s \<Longrightarrow> utf8_encodes s"
  unfolding ascii_text_def utf8_encodes_def
  by (induction s) auto

lemma ascii_lines_utf8: "list_all ascii_text lines \<Longrightarrow> list_all utf8_encodes lines"
  by (induction lines) (auto simp: ascii_utf8)

text \<open>Two records of lengths 3 and 5: five data rows, the last two with three tabs
  for the first record.\<close>

theorem table_rows_witness:
  "ex_scans \<noteq> [] \<and> list_all scan_ok ex_scans \<and>
   write_table utf8_encodes ex_fmt ex_scans =
     ([str ''Scan 1'' @ [TAB, TAB, TAB, TAB] @ str ''Scan 2'' @ [TAB, TAB, TAB, TAB, NEWLINE],
       str ''Potential(V)'' @ [TAB] @ str ''Current(A)'' @ [TAB, TAB] @
       str ''Potential(V)'' @ [TAB] @ str ''Current(A)'' @ [TAB, TAB, NEWLINE],
       str ''1'' @ [TAB] @ str ''4'' @ [TAB, TAB] @ str ''1'' @ [TAB] @ str ''6'' @ [TAB, TAB, NEWLINE],
       str ''2'' @ [TAB] @ str ''5'' @ [TAB, TAB] @ str ''2'' @ [TAB] @ str ''7'' @ [TAB, TAB, NEWLINE],
       str ''3'' @ [TAB] @ str ''6'' @ [TAB, TAB] @ str ''3'' @ [TAB] @ str ''8'' @ [TAB, TAB, NEWLINE],
       [TAB, TAB, TAB] @ str ''4'' @ [TAB] @ str ''9'' @ [TAB, TAB, NEWLINE],
       [TAB, TAB, TAB] @ str ''5'' @ [TAB] @ str ''10'' @ [TAB, TAB, NEWLINE]],
      None)"
proof -
  have h1: "ex_scans \<noteq> []"
    by (simp add: ex_scans_def)
  have h2: "list_all scan_ok ex_scans"
    by (simp add: ex_scans_def scan_ok_def)
  have "list_all ascii_text (table_lines ex_fmt ex_scans)"
    by code_simp
  then have h3: "list_all utf8_encodes (table_lines ex_fmt ex_scans)"
    by (rule ascii_lines_utf8)
  have v: "[header1 (length ex_scans) @ [NEWLINE], header2 (length ex_scans) @ [NEWLINE]] @
      map (\<lambda>i. concat (map (\<lambda>scan.
                 if i < length (potential scan)
                 then ex_fmt (potential scan ! i) @ [TAB] @ ex_fmt (current scan ! i) @ [TAB, TAB]
                 else [TAB, TAB, TAB]) ex_scans) @ [NEWLINE])
          [0..<Max (set (map (\<lambda>scan. length (potential scan)) ex_scans))] =
      [str ''Scan 1'' @ [TAB, TAB, TAB, TAB] @ str ''Scan 2'' @ [TAB, TAB, TAB, TAB, NEWLINE],
       str ''Potential(V)'' @ [TAB] @ str ''Current(A)'' @ [TAB, TAB] @
       str ''Potential(V)'' @ [TAB] @ str ''Current(A)'' @ [TAB, TAB, NEWLINE],
       str ''1'' @ [TAB] @ str ''4'' @ [TAB, TAB] @ str ''1'' @ [TAB] @ str ''6'' @ [TAB, TAB, NEWLINE],
       str ''2'' @ [TAB] @ str ''5'' @ [TAB, TAB] @ str ''2'' @ [TAB] @ str ''7'' @ [TAB, TAB, NEWLINE],
       str ''3'' @ [TAB] @ str ''6'' @ [TAB, TAB] @ str ''3'' @ [TAB] @ str ''8'' @ [TAB, TAB, NEWLINE],
       [TAB, TAB, TAB] @ str ''4'' @ [TAB] @ str ''9'' @ [TAB, TAB, NEWLINE],
       [TAB, TAB, TAB] @ str ''5'' @ [TAB] @ str ''10'' @ [TAB, TAB, NEWLINE]]"
    by code_simp
  note t = table_rows[OF h1 h2, of utf8_encodes ex_fmt, THEN conjunct2, THEN mp, OF h3]
  show ?thesis
    using h1 h2 t unfolding v by blast
qed

text \<open>
  C7 does not hold of every sequence of records. The record of \<open>ex_surrogate\<close> has
  three points, but its second potential value cannot be encoded: one data row is
  written, the second raises, and the table stops there.
\<close>

theorem table_rows_counterexample:
  "ex_surrogate \<noteq> [] \<and> list_all scan_ok ex_surrogate \<and>
   max_points_of ex_surrogate = Inr 3 \<and>
   write_table utf8_encodes ex_fmt ex_surrogate =
     ([header1 1 @ [NEWLINE], header2 1 @ [NEWLINE],
       str ''1'' @ [TAB] @ str ''4'' @ [TAB, TAB, NEWLINE]],
      Some UnicodeEncodeError)"
proof -
  have ne: "ex_surrogate \<noteq> []"
    by (simp add: ex_surrogate_def)
  have ok: "list_all scan_ok ex_surrogate"
    by (simp add: ex_surrogate_def scan_ok_def)
  have mx: "max_points_of ex_surrogate = Inr 3"
    by (simp add: max_points_of_def ex_surrogate_def)
  have upt3: "[0..<3] = [0, 1, 2 :: nat]"
    by code_simp
  have d: "decimal (Suc 0) = str ''1''" "decimal 3 = str ''3''" "decimal 4 = str ''4''"
    "decimal 5 = str ''5''" "decimal 6 = str ''6''"
    by code_simp+
  have tl: "table_lines ex_fmt ex_surrogate =
     [header1 1 @ [NEWLINE], header2 1 @ [NEWLINE],
      str ''1'' @ [TAB] @ str ''4'' @ [TAB, TAB, NEWLINE],
      [55296] @ [TAB] @ str ''5'' @ [TAB, TAB, NEWLINE],
      str ''3'' @ [TAB] @ str ''6'' @ [TAB, TAB, NEWLINE]]"
    by (simp add: table_lines_def ex_surrogate_def upt3 cell_group_def ex_fmt_def d)
  have "ascii_text (header1 1 @ [NEWLINE])" "ascii_text (header2 1 @ [NEWLINE])"
    "ascii_text (str ''1'' @ [TAB] @ str ''4'' @ [TAB, TAB, NEWLINE])"
    by code_simp+
  then have e: "utf8_encodes (header1 1 @ [NEWLINE])" "utf8_encodes (header2 1 @ [NEWLINE])"
    "utf8_encodes (str ''1'' @ [TAB] @ str ''4'' @ [TAB, TAB, NEWLINE])"
    by (simp_all add: ascii_utf8)
  have n: "\<not> utf8_encodes ([55296] @ [TAB] @ str ''5'' @ [TAB, TAB, NEWLINE])"
    by (simp add: utf8_encodes_def)
  have "write_table utf8_encodes ex_fmt ex_surrogate =
     ([header1 1 @ [NEWLINE], header2 1 @ [NEWLINE],
       str ''1'' @ [TAB] @ str ''4'' @ [TAB, TAB, NEWLINE]],
      Some UnicodeEncodeError)"
    unfolding write_table_lines[OF ne ok] tl using e n by simp
  with ne ok mx show ?thesis by blast
qed

lemma curve_body_scan_ok:
  "curve_body all_scans i c = Inr out \<Longrightarrow> list_all scan_ok all_scans \<Longrightarrow>
     list_all scan_ok out"
  by (auto simp: curve_body_def scan_ok_def split: sum.splits if_splits)

lemma curves_loop_scan_ok:
  "curves_loop all_scans i cs = Inr out \<Longrightarrow> list_all scan_ok all_scans \<Longrightarrow>
     list_all scan_ok out"
proof (induction cs arbitrary: all_scans i)
  case Nil
  then show ?case by simp
next
  case (Cons c cs)
  from Cons.prems(1) obtain acc where b: "curve_body all_scans i c = Inr acc"
    and l: "curves_loop acc (i + 1) cs = Inr out"
    by (auto split: sum.splits)
  from curve_body_scan_ok[OF b Cons.prems(2)] have "list_all scan_ok acc" .
  with Cons.IH[OF l] show ?case .
qed

lemma measurement_body_scan_ok:
  "measurement_body all_scans m = Inr out \<Longrightarrow> list_all scan_ok all_scans \<Longrightarrow>
     list_all scan_ok out"
  by (auto simp: measurement_body_def split: sum.splits if_splits
           dest: curves_loop_scan_ok)

lemma measurements_loop_scan_ok:
  "measurements_loop all_scans ms = Inr out \<Longrightarrow> list_all scan_ok all_scans \<Longrightarrow>
     list_all scan_ok out"
proof (induction ms arbitrary: all_scans)
  case Nil
  then show ?case by simp
next
  case (Cons m ms)
  from Cons.prems(1) obtain acc where b: "measurement_body all_scans m = Inr acc"
    and l: "measurements_loop acc ms = Inr out"
    by (auto split: sum.splits)
  from measurement_body_scan_ok[OF b Cons.prems(2)] have "list_all scan_ok acc" .
  with Cons.IH[OF l] show ?case .
qed

lemma assemble_scan_ok:
  "assemble d = Inr scans \<Longrightarrow> list_all scan_ok scans"
  by (auto simp: assemble_def split: sum.splits if_splits
           dest: measurements_loop_scan_ok)

lemma parse_scan_ok:
  "list_all scan_ok (parse_pessession_file loads file_read)"
  by (auto simp: parse_pessession_file_def parse_steps_def split: sum.splits
           dest: assemble_scan_ok)

lemma ascii_append: "ascii_text (xs @ ys) \<longleftrightarrow> ascii_text xs \<and> ascii_text ys"
  by (simp add: ascii_text_def)

lemma ascii_concat: "(\<And>x. x \<in> set xs \<Longrightarrow> ascii_text x) \<Longrightarrow> ascii_text (concat xs)"
  by (induction xs) (simp_all add: ascii_text_def)

lemma ascii_decimal: "ascii_text (decimal n)"
proof (induction n rule: decimal.induct)
  case (1 n)
  show ?case
  proof (cases "n < 10")
    case True
    then show ?thesis
      by (subst decimal.simps) (simp add: ascii_text_def)
  next
    case False
    have "n mod 10 < 10" by simp
    then have "ascii_text [48 + n mod 10]"
      by (simp add: ascii_text_def)
    with "1.IH"[OF False] False show ?thesis
      by (subst decimal.simps) (simp add: ascii_append)
  qed
qed

lemma ascii_header1: "ascii_text (header1 n @ [NEWLINE])"
proof -
  have s: "ascii_text (str ''Scan '')"
    by code_simp
  have t: "ascii_text [TAB, TAB, TAB, TAB]" "ascii_text [NEWLINE]"
    by (simp_all add: ascii_text_def TAB_def NEWLINE_def)
  have "ascii_text (header1 n)"
    unfolding header1_def
    by (rule ascii_concat) (auto simp: ascii_append s t ascii_decimal)
  with t show ?thesis by (simp add: ascii_append)
qed

lemma ascii_header2: "ascii_text (header2 n @ [NEWLINE])"
proof -
  have s: "ascii_text (str ''Potential(V)'' @ [TAB] @ str ''Current(A)'' @ [TAB, TAB])"
    by code_simp
  have t: "ascii_text [NEWLINE]"
    by (simp add: ascii_text_def NEWLINE_def)
  have "ascii_text (header2 n)"
    unfolding header2_def
    by (rule ascii_concat) (use s in auto)
  with t show ?thesis by (simp add: ascii_append)
qed

text \<open>
  C10. A file whose parse yields no scan is skipped before any output file is
  opened, and only then; so the maximum of the scan lengths is taken of a non-empty
  list and never raises. The only exception that can end the writing is that of a
  line the encoding cannot encode, and when the encoding encodes ASCII text the
  output file starts with the two header lines of at least one column group.
\<close>

theorem max_only_of_scans:
  "(convert_file loads encodes fmt file_read = None \<longleftrightarrow>
      parse_pessession_file loads file_read = []) \<and>
   (convert_file loads encodes fmt file_read = Some (output_file, err) \<longrightarrow>
      parse_pessession_file loads file_read \<noteq> [] \<and>
      (\<exists>max_points. max_points_of (parse_pessession_file loads file_read) = Inr max_points) \<and>
      (err = None \<or> err = Some UnicodeEncodeError) \<and>
      (\<exists>n rows. 0 < n \<and>
         prefix output_file ([header1 n @ [NEWLINE], header2 n @ [NEWLINE]] @ rows)) \<and>
      ((\<forall>s. ascii_text s \<longrightarrow> encodes s) \<longrightarrow>
         (\<exists>n rows. 0 < n \<and>
            output_file = [header1 n @ [NEWLINE], header2 n @ [NEWLINE]] @ rows)))"
proof (intro conjI impI)
  show "convert_file loads encodes fmt file_read = None \<longleftrightarrow>
      parse_pessession_file loads file_read = []"
    by (simp add: convert_file_def Let_def)
next
  let ?scans = "parse_pessession_file loads file_read"
  assume a: "convert_file loads encodes fmt file_read = Some (output_file, err)"
  then have ne: "?scans \<noteq> []"
    and w: "write_table encodes fmt ?scans = (output_file, err)"
    by (auto simp: convert_file_def Let_def split: if_splits)
  note t = write_table_lines[OF ne parse_scan_ok, of encodes fmt]
  show "?scans \<noteq> []" by (rule ne)
  show "\<exists>max_points. max_points_of ?scans = Inr max_points"
    using ne by (simp add: max_points_of_def)
  show "err = None \<or> err = Some UnicodeEncodeError"
    using w t by (auto split: if_splits)
  show "\<exists>n rows. 0 < n \<and>
         prefix output_file ([header1 n @ [NEWLINE], header2 n @ [NEWLINE]] @ rows)"
  proof -
    have "output_file = takeWhile encodes (table_lines fmt ?scans)"
      using w t by simp
    then have "prefix output_file (table_lines fmt ?scans)"
      by (simp add: takeWhile_is_prefix)
    moreover have "0 < length ?scans" using ne by simp
    ultimately show ?thesis
      unfolding table_lines_def by blast
  qed
  show "\<exists>n rows. 0 < n \<and>
         output_file = [header1 n @ [NEWLINE], header2 n @ [NEWLINE]] @ rows"
    if enc: "\<forall>s. ascii_text s \<longrightarrow> encodes s"
  proof -
    have e1: "encodes (header1 (length ?scans) @ [NEWLINE])"
      using enc ascii_header1 by blast
    have e2: "encodes (header2 (length ?scans) @ [NEWLINE])"
      using enc ascii_header2 by blast
    have "output_file = takeWhile encodes (table_lines fmt ?scans)"
      using w t by simp
    then have "output_file =
        [header1 (length ?scans) @ [NEWLINE], header2 (length ?scans) @ [NEWLINE]] @
        takeWhile encodes
          (map (\<lambda>i. concat (map (cell_group fmt i) ?scans) @ [NEWLINE])
               [0..<Max (set (map (\<lambda>scan. length (potential scan)) ?scans))])"
      using e1 e2 by (simp add: table_lines_def)
    moreover have "0 < length ?scans" using ne by simp
    ultimately show ?thesis by blast
  qed
qed

theorem max_only_of_scans_witness:
  "convert_file (ex_loads (JObj [])) utf8_encodes ex_fmt (Inr (str ''{}'')) = None \<and>
   convert_file (ex_loads ex_doc) utf8_encodes ex_fmt (Inr (str ''{}'')) =
     Some (write_table utf8_encodes ex_fmt
       [\<lparr>scan_number = 2, potential = [JNum 0, JNum 5], current = [JNum 7, JNum 8]\<rparr>,
        \<lparr>scan_number = 1, potential = [JNum 1], current = [JNum 2]\<rparr>]) \<and>
   (\<exists>n rows. 0 < n \<and>
      fst (write_table utf8_encodes ex_fmt
       [\<lparr>scan_number = 2, potential = [JNum 0, JNum 5], current = [JNum 7, JNum 8]\<rparr>,
        \<lparr>scan_number = 1, potential = [JNum 1], current = [JNum 2]\<rparr>]) =
      [header1 n @ [NEWLINE], header2 n @ [NEWLINE]] @ rows)"
proof -
  let ?scans = "[\<lparr>scan_number = 2, potential = [JNum 0, JNum 5], current = [JNum 7, JNum 8]\<rparr>,
        \<lparr>scan_number = 1, potential = [JNum 1], current = [JNum (2::int)]\<rparr>]"
  let ?W = "write_table utf8_encodes ex_fmt ?scans"
  have s: "strip_bom (str ''{}'') = str ''{}''"
    by (simp add: strip_bom_def str_def BOM_def)
  have c: "candidate_span (str ''{}'') = Inr (str ''{}'')"
    by code_simp
  have a0: "assemble (JObj [] :: int json) = Inr []"
    by (simp add: assemble_def)
  have p0: "parse_pessession_file (ex_loads (JObj [])) (Inr (str ''{}'')) = []"
    by (simp add: parse_pessession_file_def parse_steps_def extract_json_def s c a0 ex_loads_def)
  have a1: "assemble ex_doc = Inr ?scans"
    by code_simp
  have p1: "parse_pessession_file (ex_loads ex_doc) (Inr (str ''{}'')) = ?scans"
    by (simp add: parse_pessession_file_def parse_steps_def extract_json_def s c a1 ex_loads_def)
  have enc: "\<forall>s. ascii_text s \<longrightarrow> utf8_encodes s"
    by (simp add: ascii_utf8)
  have w0: "convert_file (ex_loads (JObj [])) utf8_encodes ex_fmt (Inr (str ''{}'')) = None"
    using max_only_of_scans
      [of "ex_loads (JObj [])" utf8_encodes ex_fmt "Inr (str ''{}'')", THEN conjunct1] p0
    by (rule iffD2)
  have cf: "convert_file (ex_loads ex_doc) utf8_encodes ex_fmt (Inr (str ''{}'')) =
      Some (fst ?W, snd ?W)"
    by (simp add: convert_file_def Let_def p1)
  have w2: "\<exists>n rows. 0 < n \<and> fst ?W = [header1 n @ [NEWLINE], header2 n @ [NEWLINE]] @ rows"
    using max_only_of_scans
      [of "ex_loads ex_doc" utf8_encodes ex_fmt "Inr (str ''{}'')" "fst ?W" "snd ?W",
        THEN conjunct2, THEN mp, OF cf] enc
    by blast
  show ?thesis using w0 cf w2 by simp
qed

end
